theory Spec2Isabelle
  imports Complex_Main "HOL-Library.Multiset" "HOL-Library.Tree"
begin

section \<open>Outcomes of container operations\<close>

text \<open>
  The containers signal failure by throwing.  A throwing member function may already have
  changed the object, so every operation of the model returns the outcome together with
  the state the object is left in.
\<close>

datatype exn =
    HTC_KeyNotFoundException
  | HTC_AlreadyExistsException
  | HTC_InvalidLoadFactorException
  | RB_AlreadyExistsException
  | RB_ValueNotFoundException
  | AVL_ValueNotFoundException
  | Std_out_of_range

datatype 'a outcome = Returns 'a | Throws exn

section \<open>Chained hash table (HashTable\_Chaining.hpp)\<close>

text \<open>
  \<open>size_t\<close> counters are natural numbers; the only place where the code can step outside
  the naturals is the decrement of the element counter, whose wrap-around at zero is written
  out in \<open>dec_size_t\<close>.  The hash functor \<open>m_hashing\<close> is a parameter of every operation.
  The \<open>float\<close> quotient of the load test is read as the exact quotient.
\<close>

record ('k, 'v) HashTable_Chaining =
  m_number_of_elements :: nat
  m_table_size :: nat
  m_table :: "('k \<times> 'v) list list"
  m_load_factor :: real
  m_max_load_factor :: real
  htc_n_comparisons :: nat

definition dec_size_t :: "nat \<Rightarrow> nat" where
  "dec_size_t n = (if n = 0 then 2 ^ 64 - 1 else n - 1)"

text \<open>The inner \<open>for\<close> loop of \<open>get_next_prime\<close>: is there an \<open>i\<close> from the given start
  with \<open>i \<le> sqrt x\<close> that divides \<open>x\<close>?  (\<open>i \<le> sqrt x\<close> is \<open>i * i \<le> x\<close>.)\<close>

function has_divisor_from :: "nat \<Rightarrow> nat \<Rightarrow> bool" where
  "has_divisor_from x i =
     (if i * i \<le> x
      then (if x mod i = 0 then True else has_divisor_from x (i + 1))
      else False)"
  by pat_completeness auto
termination
proof (relation "measure (\<lambda>(x, i). x + 1 - i)")
  show "wf (measure (\<lambda>(x, i). x + 1 - i))" by simp
next
  fix x i :: nat
  assume "i * i \<le> x"
  then have "i \<le> x"
    by (metis le_trans le_square)
  then show "((x, i + 1), (x, i)) \<in> measure (\<lambda>(x, i). x + 1 - i)"
    by simp
qed

declare has_divisor_from.simps [simp del]

text \<open>The \<open>while (not_prime)\<close> loop: test \<open>x\<close>, add two, repeat while a divisor was found;
  the value returned is the last one tested.\<close>

partial_function (option) get_next_prime_loop :: "nat \<Rightarrow> nat option" where
  "get_next_prime_loop x =
     (let not_prime = has_divisor_from x 2;
          x' = x + 2
      in if not_prime then get_next_prime_loop x' else Some (x' - 2))"

declare get_next_prime_loop.simps [code]

definition get_next_prime :: "nat \<Rightarrow> nat option" where
  "get_next_prime x =
     (if x \<le> 2 then Some 3
      else get_next_prime_loop (if x mod 2 = 0 then x + 1 else x))"

definition hash_code :: "('k \<Rightarrow> nat) \<Rightarrow> ('k, 'v) HashTable_Chaining \<Rightarrow> 'k \<Rightarrow> nat" where
  "hash_code m_hashing t k = m_hashing k mod m_table_size t"

text \<open>\<open>push_back\<close> of one pair into the bucket chosen by the new table size.\<close>

definition rehash_push ::
  "('k \<Rightarrow> nat) \<Rightarrow> nat \<Rightarrow> ('k \<times> 'v) list list \<Rightarrow> 'k \<times> 'v \<Rightarrow> ('k \<times> 'v) list list" where
  "rehash_push m_hashing new_size new_table par =
     (let index = m_hashing (fst par) mod new_size
      in new_table[index := new_table ! index @ [par]])"

definition rehash ::
  "('k \<Rightarrow> nat) \<Rightarrow> ('k, 'v) HashTable_Chaining \<Rightarrow> nat \<Rightarrow> ('k, 'v) HashTable_Chaining" where
  "rehash m_hashing t new_size =
     (let new_table =
            foldl (rehash_push m_hashing new_size) (replicate new_size [])
              (concat (map (\<lambda>i. m_table t ! i) [0..<m_table_size t]))
      in t\<lparr>m_table := new_table, m_table_size := new_size\<rparr>)"

definition HashTable_Chaining_new :: "nat \<Rightarrow> ('k, 'v) HashTable_Chaining option" where
  "HashTable_Chaining_new tableSize =
     (case get_next_prime tableSize of
        None \<Rightarrow> None
      | Some p \<Rightarrow>
          Some \<lparr>m_number_of_elements = 0, m_table_size = p, m_table = replicate p [],
                m_load_factor = 0.75, m_max_load_factor = 1.0, htc_n_comparisons = 0\<rparr>)"

definition htc_size :: "('k, 'v) HashTable_Chaining \<Rightarrow> nat" where
  "htc_size t = m_number_of_elements t"

text \<open>The range-\<open>for\<close> scans of a bucket for a key.\<close>

fun bucket_has :: "'k \<Rightarrow> ('k \<times> 'v) list \<Rightarrow> bool" where
  "bucket_has k [] = False"
| "bucket_has k (par # rest) = (if fst par = k then True else bucket_has k rest)"

definition load_exceeded :: "('k, 'v) HashTable_Chaining \<Rightarrow> bool" where
  "load_exceeded t =
     (real (m_number_of_elements t) / real (m_table_size t) > m_load_factor t)"

definition htc_add ::
  "('k \<Rightarrow> nat) \<Rightarrow> ('k, 'v) HashTable_Chaining \<Rightarrow> 'k \<Rightarrow> 'v
     \<Rightarrow> unit outcome \<times> ('k, 'v) HashTable_Chaining" where
  "htc_add m_hashing t0 k v =
     (let t = (if load_exceeded t0 then rehash m_hashing t0 (m_table_size t0 * 2) else t0);
          index = hash_code m_hashing t k
      in if bucket_has k (m_table t ! index)
         then (Throws HTC_AlreadyExistsException, t)
         else (Returns (),
               t\<lparr>m_table := (m_table t)[index := m_table t ! index @ [(k, v)]],
                 m_number_of_elements := m_number_of_elements t + 1\<rparr>))"

text \<open>
  A step for which C++ defines no behaviour ends the defined part of an execution.  An
  operation that can reach such a step yields \<open>Defined\<close> with its result, or \<open>Undefined\<close> with the
  state at the moment the step is reached; nothing is said about what follows.
\<close>

datatype ('a, 's) behaviour = Defined 'a | Undefined 's

text \<open>
  The scan of \<open>remove\<close>, from \<open>begin()\<close>.  \<open>None\<close>: the iterator has reached \<open>end()\<close> and no
  entry had the key.  \<open>Some b\<close>: the first entry with the key has been erased, \<open>b\<close> is the
  bucket without it.  The loop has no \<open>break\<close> and no \<open>return\<close> there: what it does next is
  \<open>++it\<close> on the iterator that \<open>std::list::erase\<close> has just invalidated.
\<close>

fun remove_scan :: "'k \<Rightarrow> ('k \<times> 'v) list \<Rightarrow> ('k \<times> 'v) list option" where
  "remove_scan k [] = None"
| "remove_scan k (par # rest) =
     (if fst par = k then Some rest else map_option ((#) par) (remove_scan k rest))"

text \<open>
  \<open>remove\<close>.  Without a match the scan ends and the \<open>throw\<close> behind the loop is reached with
  the table untouched.  With a match the entry is erased, the element counter is
  decremented and the comparison counter incremented, and the increment of the invalidated
  iterator follows: the behaviour is undefined from the table in that state on.
\<close>

definition htc_remove ::
  "('k \<Rightarrow> nat) \<Rightarrow> ('k, 'v) HashTable_Chaining \<Rightarrow> 'k
     \<Rightarrow> (unit outcome \<times> ('k, 'v) HashTable_Chaining, ('k, 'v) HashTable_Chaining) behaviour" where
  "htc_remove m_hashing t k =
     (let index = hash_code m_hashing t k
      in case remove_scan k (m_table t ! index) of
           None \<Rightarrow> Defined (Throws HTC_KeyNotFoundException, t)
         | Some bucket' \<Rightarrow>
             Undefined
               (t\<lparr>m_table := (m_table t)[index := bucket'],
                  m_number_of_elements := dec_size_t (m_number_of_elements t),
                  htc_n_comparisons := htc_n_comparisons t + 1\<rparr>))"

definition htc_contains ::
  "('k \<Rightarrow> nat) \<Rightarrow> ('k, 'v) HashTable_Chaining \<Rightarrow> 'k \<Rightarrow> bool \<times> ('k, 'v) HashTable_Chaining" where
  "htc_contains m_hashing t k =
     (let index = hash_code m_hashing t k
      in if bucket_has k (m_table t ! index)
         then (True, t\<lparr>htc_n_comparisons := htc_n_comparisons t + 1\<rparr>)
         else (False, t))"

text \<open>The scan of \<open>at\<close> (both overloads, and of the \<open>const\<close> \<open>operator[]\<close>): the value of the first
  entry with the key.\<close>

fun bucket_find :: "'k \<Rightarrow> ('k \<times> 'v) list \<Rightarrow> 'v option" where
  "bucket_find k [] = None"
| "bucket_find k (par # rest) = (if fst par = k then Some (snd par) else bucket_find k rest)"




subsection \<open>Well-formed tables\<close>

text \<open>
  The tables the operations produce: a positive number of buckets, every entry in the
  bucket its hash selects, no key twice, and the element counter equal to the number of
  stored entries.
\<close>

definition buckets_ok :: "('k \<Rightarrow> nat) \<Rightarrow> nat \<Rightarrow> ('k \<times> 'v) list list \<Rightarrow> bool" where
  "buckets_ok h ns nt = (\<forall>i \<in> {0..<ns}. \<forall>par \<in> set (nt ! i). h (fst par) mod ns = i)"

definition htc_inv :: "('k \<Rightarrow> nat) \<Rightarrow> ('k, 'v) HashTable_Chaining \<Rightarrow> bool" where
  "htc_inv m_hashing t =
     (0 < m_table_size t \<and> length (m_table t) = m_table_size t \<and>
      buckets_ok m_hashing (m_table_size t) (m_table t) \<and>
      distinct (map fst (concat (m_table t))) \<and>
      m_number_of_elements t = length (concat (m_table t)))"

definition htc_keys :: "('k, 'v) HashTable_Chaining \<Rightarrow> 'k set" where
  "htc_keys t = fst ` set (concat (m_table t))"

lemma bucket_has_iff: "bucket_has k b \<longleftrightarrow> k \<in> fst ` set b"
  by (induction b) auto

lemma mset_concat_update:
  "i < length xs \<Longrightarrow> mset (concat (xs[i := ys])) + mset (xs ! i) = mset (concat xs) + mset ys"
proof (induction xs arbitrary: i)
  case Nil
  then show ?case by simp
next
  case (Cons x xs)
  then show ?case by (cases i) (auto simp: ac_simps)
qed

lemma mset_concat_push:
  "i < length xs \<Longrightarrow> mset (concat (xs[i := xs ! i @ [p]])) = add_mset p (mset (concat xs))"
  using mset_concat_update[of i xs "xs ! i @ [p]"] by simp

lemma distinct_fst_mset_cong:
  "mset xs = mset ys \<Longrightarrow> distinct (map fst xs) = distinct (map fst ys)"
  by (metis mset_eq_imp_distinct_iff mset_map)

lemma buckets_ok_push:
  assumes "buckets_ok h ns nt" "length nt = ns" "0 < ns" "h (fst p) mod ns = j"
  shows "buckets_ok h ns (nt[j := nt ! j @ [p]])"
  unfolding buckets_ok_def
proof (intro ballI)
  fix i par
  assume i: "i \<in> {0..<ns}" and par: "par \<in> set (nt[j := nt ! j @ [p]] ! i)"
  show "h (fst par) mod ns = i"
  proof (cases "i = j")
    case True
    then have "par \<in> set (nt ! j) \<or> par = p" using par i assms(2) by auto
    then show ?thesis using assms(1,4) i True by (auto simp: buckets_ok_def)
  next
    case False
    then have "par \<in> set (nt ! i)" using par by simp
    then show ?thesis using assms(1) i by (auto simp: buckets_ok_def)
  qed
qed

lemma buckets_ok_shrink:
  assumes "buckets_ok h ns nt" "length nt = ns" "set ys \<subseteq> set (nt ! j)"
  shows "buckets_ok h ns (nt[j := ys])"
  unfolding buckets_ok_def
proof (intro ballI)
  fix i par
  assume i: "i \<in> {0..<ns}" and par: "par \<in> set (nt[j := ys] ! i)"
  have "par \<in> set (nt ! i)"
    using par assms(2,3) i by (cases "i = j") auto
  then show "h (fst par) mod ns = i" using assms(1) i by (auto simp: buckets_ok_def)
qed

lemma length_rehash_push: "length (rehash_push h ns nt p) = length nt"
  by (simp add: rehash_push_def Let_def)

lemma mset_rehash_push:
  "0 < ns \<Longrightarrow> length nt = ns \<Longrightarrow>
   mset (concat (rehash_push h ns nt p)) = add_mset p (mset (concat nt))"
  unfolding rehash_push_def Let_def by (rule mset_concat_push) simp

lemma buckets_ok_rehash_push:
  "buckets_ok h ns nt \<Longrightarrow> length nt = ns \<Longrightarrow> 0 < ns \<Longrightarrow> buckets_ok h ns (rehash_push h ns nt p)"
  unfolding rehash_push_def Let_def by (rule buckets_ok_push) simp_all

lemma foldl_rehash_push:
  assumes "0 < ns" "length nt = ns"
  shows "length (foldl (rehash_push h ns) nt ps) = ns"
    and "mset (concat (foldl (rehash_push h ns) nt ps)) = mset (concat nt) + mset ps"
    and "buckets_ok h ns nt \<Longrightarrow> buckets_ok h ns (foldl (rehash_push h ns) nt ps)"
  using assms
proof (induction ps arbitrary: nt)
  case Nil
  { case 1 then show ?case by simp }
  { case 2 then show ?case by simp }
  { case 3 then show ?case by simp }
next
  case (Cons p ps)
  { case 1 then show ?case using Cons.IH(1)[of "rehash_push h ns nt p"] by (simp add: length_rehash_push) }
  { case 2 then show ?case using Cons.IH(2)[of "rehash_push h ns nt p"]
      by (simp add: length_rehash_push mset_rehash_push) }
  { case 3 then show ?case using Cons.IH(3)[of "rehash_push h ns nt p"]
      by (simp add: length_rehash_push buckets_ok_rehash_push) }
qed

lemma concat_all_buckets:
  "n = length xs \<Longrightarrow> concat (map (\<lambda>i. xs ! i) [0..<n]) = concat xs"
  by (simp add: map_nth)

lemma htc_inv_rehash:
  assumes "htc_inv h t" "0 < ns"
  shows "htc_inv h (rehash h t ns)"
    and "mset (concat (m_table (rehash h t ns))) = mset (concat (m_table t))"
    and "m_table_size (rehash h t ns) = ns"
    and "m_number_of_elements (rehash h t ns) = m_number_of_elements t"
    and "m_load_factor (rehash h t ns) = m_load_factor t"
proof -
  let ?ps = "concat (m_table t)"
  let ?new = "foldl (rehash_push h ns) (replicate ns []) ?ps"
  have eq: "rehash h t ns = t\<lparr>m_table := ?new, m_table_size := ns\<rparr>"
    using assms(1) by (simp add: rehash_def htc_inv_def concat_all_buckets)
  have len: "length ?new = ns"
    by (rule foldl_rehash_push(1)) (use assms(2) in simp_all)
  have "mset (concat ?new) = mset (concat (replicate ns [] :: ('a \<times> 'b) list list)) + mset ?ps"
    by (rule foldl_rehash_push(2)) (use assms(2) in simp_all)
  then have ms: "mset (concat ?new) = mset ?ps" by simp
  have bk: "buckets_ok h ns ?new"
    by (rule foldl_rehash_push(3)) (use assms(2) in \<open>simp_all add: buckets_ok_def\<close>)
  show "mset (concat (m_table (rehash h t ns))) = mset (concat (m_table t))"
    using ms by (simp add: eq)
  show "m_table_size (rehash h t ns) = ns" by (simp add: eq)
  show "m_number_of_elements (rehash h t ns) = m_number_of_elements t" by (simp add: eq)
  show "m_load_factor (rehash h t ns) = m_load_factor t" by (simp add: eq)
  have "distinct (map fst (concat ?new))"
    using distinct_fst_mset_cong[OF ms] assms(1) by (simp add: htc_inv_def)
  moreover have "length (concat ?new) = length ?ps"
    using ms by (metis mset_eq_length)
  ultimately show "htc_inv h (rehash h t ns)"
    using assms len bk by (simp add: eq htc_inv_def)
qed

lemma htc_keys_rehash:
  assumes "htc_inv h t" "0 < ns"
  shows "htc_keys (rehash h t ns) = htc_keys t"
  using htc_inv_rehash(2)[OF assms] by (metis htc_keys_def mset_eq_setD)

lemma htc_contains_iff:
  assumes "htc_inv h t"
  shows "fst (htc_contains h t k) \<longleftrightarrow> k \<in> htc_keys t"
proof -
  let ?i = "h k mod m_table_size t"
  have i: "?i < length (m_table t)" using assms by (simp add: htc_inv_def)
  have "k \<in> fst ` set (m_table t ! ?i)" if "k \<in> htc_keys t"
  proof -
    from that obtain b par where b: "b \<in> set (m_table t)" "par \<in> set b" "fst par = k"
      by (auto simp: htc_keys_def)
    then obtain j where j: "j < length (m_table t)" "m_table t ! j = b"
      by (auto simp: in_set_conv_nth)
    then have "h (fst par) mod m_table_size t = j"
      using assms b by (auto simp: htc_inv_def buckets_ok_def)
    then show ?thesis using b j by auto
  qed
  moreover have "k \<in> htc_keys t" if "k \<in> fst ` set (m_table t ! ?i)"
  proof -
    have "m_table t ! ?i \<in> set (m_table t)" using i by simp
    then show ?thesis using that by (force simp: htc_keys_def)
  qed
  ultimately show ?thesis
    by (auto simp: htc_contains_def hash_code_def bucket_has_iff Let_def)
qed

lemma htc_bucket_has_iff:
  assumes "htc_inv h t"
  shows "bucket_has k (m_table t ! hash_code h t k) \<longleftrightarrow> k \<in> htc_keys t"
  using htc_contains_iff[OF assms, of k] by (auto simp: htc_contains_def Let_def split: if_splits)

lemma htc_add_no_rehash:
  fixes v :: 'v
  assumes inv: "htc_inv h t" and fresh: "k \<notin> htc_keys t"
  defines "i \<equiv> hash_code h t k"
  defines "t' \<equiv> t\<lparr>m_table := (m_table t)[i := m_table t ! i @ [(k, v)]],
                   m_number_of_elements := m_number_of_elements t + 1\<rparr>"
  shows "htc_inv h t'" and "htc_keys t' = insert k (htc_keys t)"
proof -
  have i: "i < length (m_table t)" using inv by (simp add: i_def hash_code_def htc_inv_def)
  have ms: "mset (concat (m_table t')) = add_mset (k, v) (mset (concat (m_table t)))"
    using mset_concat_push[OF i] by (simp add: t'_def)
  have "set (concat (m_table t')) = insert (k, v) (set (concat (m_table t)))"
    using ms by (metis set_mset_add_mset_insert set_mset_mset)
  then show keys: "htc_keys t' = insert k (htc_keys t)"
    by (simp add: htc_keys_def)
  have "mset (map fst (concat (m_table t'))) = mset (k # map fst (concat (m_table t)))"
    using ms by (metis list.simps(9) fst_conv mset.simps(2) mset_map image_mset_add_mset)
  then have "distinct (map fst (concat (m_table t'))) = distinct (k # map fst (concat (m_table t)))"
    by (rule mset_eq_imp_distinct_iff)
  then have d: "distinct (map fst (concat (m_table t')))"
    using inv fresh by (simp add: htc_inv_def htc_keys_def)
  have l: "length (concat (m_table t')) = Suc (length (concat (m_table t)))"
    using ms by (metis size_mset size_add_mset)
  have b: "buckets_ok h (m_table_size t) (m_table t')"
    unfolding t'_def using inv
    by (simp add: htc_inv_def i_def hash_code_def buckets_ok_push)
  show "htc_inv h t'"
    using inv d l b by (simp add: htc_inv_def t'_def)
qed

lemma htc_add_cases:
  assumes inv: "htc_inv h t"
  defines "t1 \<equiv> (if load_exceeded t then rehash h t (m_table_size t * 2) else t)"
  shows "htc_inv h t1" and "htc_keys t1 = htc_keys t"
    and "m_number_of_elements t1 = m_number_of_elements t"
    and "m_load_factor t1 = m_load_factor t"
    and "m_table_size t1 = (if load_exceeded t then m_table_size t * 2 else m_table_size t)"
proof -
  have pos: "0 < m_table_size t * 2" using inv by (simp add: htc_inv_def)
  show "htc_inv h t1" using htc_inv_rehash(1)[OF inv pos] inv by (simp add: t1_def)
  show "htc_keys t1 = htc_keys t" using htc_keys_rehash[OF inv pos] by (simp add: t1_def)
  show "m_number_of_elements t1 = m_number_of_elements t"
    using htc_inv_rehash(4)[OF inv pos] by (simp add: t1_def)
  show "m_load_factor t1 = m_load_factor t"
    using htc_inv_rehash(5)[OF inv pos] by (simp add: t1_def)
  show "m_table_size t1 = (if load_exceeded t then m_table_size t * 2 else m_table_size t)"
    using htc_inv_rehash(3)[OF inv pos] by (simp add: t1_def)
qed

lemma htc_add_fresh:
  assumes inv: "htc_inv h t" and fresh: "k \<notin> htc_keys t"
  shows "fst (htc_add h t k v) = Returns ()"
    and "htc_inv h (snd (htc_add h t k v))"
    and "htc_keys (snd (htc_add h t k v)) = insert k (htc_keys t)"
    and "m_number_of_elements (snd (htc_add h t k v)) = m_number_of_elements t + 1"
    and "m_load_factor (snd (htc_add h t k v)) = m_load_factor t"
    and "m_table_size (snd (htc_add h t k v)) =
           (if load_exceeded t then m_table_size t * 2 else m_table_size t)"
proof -
  let ?t1 = "if load_exceeded t then rehash h t (m_table_size t * 2) else t"
  note c = htc_add_cases[OF inv]
  have nb: "\<not> bucket_has k (m_table ?t1 ! hash_code h ?t1 k)"
    using htc_bucket_has_iff[OF c(1), of k] c(2) fresh by simp
  let ?t' = "?t1\<lparr>m_table := (m_table ?t1)[hash_code h ?t1 k := m_table ?t1 ! hash_code h ?t1 k @ [(k, v)]],
                   m_number_of_elements := m_number_of_elements ?t1 + 1\<rparr>"
  have eq: "htc_add h t k v = (Returns (), ?t')"
    using nb unfolding htc_add_def Let_def by simp
  have fresh1: "k \<notin> htc_keys ?t1" using c(2) fresh by simp
  show "fst (htc_add h t k v) = Returns ()" by (simp add: eq)
  show "htc_inv h (snd (htc_add h t k v))"
    unfolding eq snd_conv by (rule htc_add_no_rehash(1)[OF c(1) fresh1])
  show "htc_keys (snd (htc_add h t k v)) = insert k (htc_keys t)"
    unfolding eq snd_conv using htc_add_no_rehash(2)[OF c(1) fresh1, of v] c(2) by simp
  show "m_number_of_elements (snd (htc_add h t k v)) = m_number_of_elements t + 1"
    unfolding eq snd_conv using c(3) by simp
  show "m_load_factor (snd (htc_add h t k v)) = m_load_factor t"
    unfolding eq snd_conv using c(4) by simp
  show "m_table_size (snd (htc_add h t k v)) =
           (if load_exceeded t then m_table_size t * 2 else m_table_size t)"
    unfolding eq snd_conv using c(5) by simp
qed

lemma htc_add_duplicate:
  assumes inv: "htc_inv h t" and dup: "k \<in> htc_keys t"
  shows "fst (htc_add h t k v) = Throws HTC_AlreadyExistsException"
    and "htc_inv h (snd (htc_add h t k v))"
    and "htc_keys (snd (htc_add h t k v)) = htc_keys t"
    and "m_number_of_elements (snd (htc_add h t k v)) = m_number_of_elements t"
proof -
  let ?t1 = "if load_exceeded t then rehash h t (m_table_size t * 2) else t"
  note c = htc_add_cases[OF inv]
  have b: "bucket_has k (m_table ?t1 ! hash_code h ?t1 k)"
    using htc_bucket_has_iff[OF c(1), of k] c(2) dup by simp
  have eq: "htc_add h t k v = (Throws HTC_AlreadyExistsException, ?t1)"
    using b unfolding htc_add_def Let_def by simp
  show "fst (htc_add h t k v) = Throws HTC_AlreadyExistsException" by (simp add: eq)
  show "htc_inv h (snd (htc_add h t k v))" unfolding eq snd_conv by (rule c(1))
  show "htc_keys (snd (htc_add h t k v)) = htc_keys t" unfolding eq snd_conv by (rule c(2))
  show "m_number_of_elements (snd (htc_add h t k v)) = m_number_of_elements t"
    unfolding eq snd_conv by (rule c(3))
qed

lemma htc_inv_add: "htc_inv h t \<Longrightarrow> htc_inv h (snd (htc_add h t k v))"
proof (cases "k \<in> htc_keys t")
  case True
  assume "htc_inv h t"
  then show ?thesis using True by (rule htc_add_duplicate(2))
next
  case False
  assume "htc_inv h t"
  then show ?thesis using False by (rule htc_add_fresh(2))
qed

lemma get_next_prime_loop_ge:
  assumes "get_next_prime_loop x = Some y"
  shows "x \<le> y"
  using assms
proof (induction rule: get_next_prime_loop.raw_induct[rotated 1, consumes 1, case_names step])
  case (step f x y)
  then show ?case by (auto simp: Let_def split: if_splits dest!: step.IH)
qed

lemma get_next_prime_pos: "get_next_prime x = Some p \<Longrightarrow> 3 \<le> p"
  by (auto simp: get_next_prime_def split: if_splits dest!: get_next_prime_loop_ge)

lemma htc_inv_new:
  assumes "HashTable_Chaining_new n = Some t"
  shows "htc_inv h t"
  using assms
  by (auto simp: HashTable_Chaining_new_def htc_inv_def buckets_ok_def
      split: option.splits dest!: get_next_prime_pos)

fun htc_add_all ::
  "('k \<Rightarrow> nat) \<Rightarrow> ('k, 'v) HashTable_Chaining \<Rightarrow> ('k \<times> 'v) list \<Rightarrow> ('k, 'v) HashTable_Chaining" where
  "htc_add_all h t [] = t"
| "htc_add_all h t (kv # kvs) = htc_add_all h (snd (htc_add h t (fst kv) (snd kv))) kvs"

fun htc_rehashes ::
  "('k \<Rightarrow> nat) \<Rightarrow> ('k, 'v) HashTable_Chaining \<Rightarrow> ('k \<times> 'v) list \<Rightarrow> nat" where
  "htc_rehashes h t [] = 0"
| "htc_rehashes h t (kv # kvs) =
     (if load_exceeded t then 1 else 0) + htc_rehashes h (snd (htc_add h t (fst kv) (snd kv))) kvs"

lemma htc_new_19: "HashTable_Chaining_new 19 = Some \<lparr>m_number_of_elements = 0, m_table_size = 19, m_table = replicate 19 [],
                m_load_factor = 0.75, m_max_load_factor = 1.0, htc_n_comparisons = 0\<rparr>"
  by (simp add: HashTable_Chaining_new_def get_next_prime_def get_next_prime_loop.simps has_divisor_from.simps Let_def)


lemma bucket_find_None: "bucket_find k b = None \<longleftrightarrow> \<not> bucket_has k b"
  by (induction b) auto







definition htc_one_key :: "(nat, nat) HashTable_Chaining" where
  "htc_one_key =
     \<lparr>m_number_of_elements = 1, m_table_size = 3, m_table = [[], [(7, 70)], []],
      m_load_factor = 0.75, m_max_load_factor = 1.0, htc_n_comparisons = 0\<rparr>"

lemma htc_one_key_built:
  "map_option (\<lambda>t. snd (htc_add (\<lambda>k. k) t 7 70)) (HashTable_Chaining_new 0) = Some htc_one_key"
  by code_simp

lemma htc_one_key_inv: "htc_inv (\<lambda>k. k) htc_one_key"
  by code_simp

text \<open>
  Claim C1, on the code.  The table holds the single entry \<open>(7, 70)\<close>.  \<open>remove(7)\<close> finds the
  entry, erases it and counts the elements down from 1 to 0; the next step of its loop
  increments the iterator of the erased entry, and the behaviour is undefined from there:
  the \<open>throw\<close> behind the loop is not reached by any defined step.  \<open>remove(8)\<close>, of a key that
  is not stored, does reach it and throws \<open>HTC_KeyNotFoundException\<close> with the table as it
  was.
\<close>

theorem htc_remove_present_key_undefined:
  "fst (htc_contains (\<lambda>k. k) htc_one_key 7) \<and>
   htc_remove (\<lambda>k. k) htc_one_key 7 =
     Undefined \<lparr>m_number_of_elements = 0, m_table_size = 3, m_table = [[], [], []],
                 m_load_factor = 0.75, m_max_load_factor = 1.0, htc_n_comparisons = 1\<rparr> \<and>
   htc_remove (\<lambda>k. k) htc_one_key 8 = Defined (Throws HTC_KeyNotFoundException, htc_one_key)"
  by (intro conjI; code_simp)

lemma htc_add_rehash_keeps_keys:
  assumes "htc_inv h t" "load_exceeded t" "fst (htc_contains h t k')"
  shows "m_table_size (snd (htc_add h t k v)) = m_table_size t * 2"
    and "fst (htc_contains h (snd (htc_add h t k v)) k')"
proof -
  have inv': "htc_inv h (snd (htc_add h t k v))" by (rule htc_inv_add[OF assms(1)])
  have k': "k' \<in> htc_keys t" using htc_contains_iff[OF assms(1)] assms(3) by simp
  show "m_table_size (snd (htc_add h t k v)) = m_table_size t * 2"
  proof (cases "k \<in> htc_keys t")
    case True
    have "htc_add h t k v = (Throws HTC_AlreadyExistsException, rehash h t (m_table_size t * 2))"
      using htc_add_duplicate(1)[OF assms(1) True, of v] assms(2)
      by (auto simp: htc_add_def Let_def split: if_splits)
    then show ?thesis using htc_inv_rehash(3)[OF assms(1), of "m_table_size t * 2"] assms(1)
      by (simp add: htc_inv_def)
  next
    case False
    then show ?thesis using htc_add_fresh(6)[OF assms(1) False] assms(2) by simp
  qed
  have "k' \<in> htc_keys (snd (htc_add h t k v))"
    using htc_add_fresh(3)[OF assms(1), of k v] htc_add_duplicate(3)[OF assms(1), of k v] k'
    by (cases "k \<in> htc_keys t") auto
  then show "fst (htc_contains h (snd (htc_add h t k v)) k')"
    using htc_contains_iff[OF inv'] by simp
qed

definition htc_sample :: "nat \<Rightarrow> (nat \<times> nat) list" where
  "htc_sample n = map (\<lambda>k. (k, k)) [0..<n]"

definition htc_empty_19 :: "(nat, nat) HashTable_Chaining" where
  "htc_empty_19 =
     \<lparr>m_number_of_elements = 0, m_table_size = 19, m_table = replicate 19 [],
      m_load_factor = 0.75, m_max_load_factor = 1.0, htc_n_comparisons = 0\<rparr>"

lemma htc_new_19_empty: "HashTable_Chaining_new 19 = Some htc_empty_19"
  by (simp add: htc_new_19 htc_empty_19_def)

text \<open>
  Claim C3.  The rehash that \<open>add\<close> triggers is claimed to move the table to the next prime
  at or above twice its size.  From a fresh table of 19 buckets the sixteenth \<open>add\<close> finds
  the load exceeded and rehashes to exactly \<open>19 * 2 = 38\<close> buckets, which the table's own
  divisor test finds composite; \<open>get_next_prime\<close> of 38 is 41.  (That the stored keys stay
  found, the other half of the claim, is \<open>htc_add_rehash_keeps_keys\<close>.)
\<close>

theorem htc_rehash_size_not_prime:
  "HashTable_Chaining_new 19 = Some htc_empty_19 \<and>
   m_table_size (htc_add_all (\<lambda>k. k) htc_empty_19 (htc_sample 15)) = 19 \<and>
   load_exceeded (htc_add_all (\<lambda>k. k) htc_empty_19 (htc_sample 15)) \<and>
   m_table_size (htc_add_all (\<lambda>k. k) htc_empty_19 (htc_sample 16)) = 38 \<and>
   has_divisor_from (m_table_size (htc_add_all (\<lambda>k. k) htc_empty_19 (htc_sample 16))) 2 \<and>
   get_next_prime (19 * 2) = Some 41"
proof (intro conjI)
  show "HashTable_Chaining_new 19 = Some htc_empty_19" by (rule htc_new_19_empty)
  show "m_table_size (htc_add_all (\<lambda>k. k) htc_empty_19 (htc_sample 15)) = 19" by code_simp
  show "load_exceeded (htc_add_all (\<lambda>k. k) htc_empty_19 (htc_sample 15))" by code_simp
  show "m_table_size (htc_add_all (\<lambda>k. k) htc_empty_19 (htc_sample 16)) = 38" by code_simp
  show "has_divisor_from (m_table_size (htc_add_all (\<lambda>k. k) htc_empty_19 (htc_sample 16))) 2"
    by code_simp
  show "get_next_prime (19 * 2) = Some 41" by code_simp
qed

text \<open>
  Claim C4, as stated, fails: fifteen adds of distinct keys into a fresh table of 19 buckets
  trigger no rehash, not one, and the table still has 19 buckets.
\<close>

theorem htc_fifteen_adds_counterexample:
  "HashTable_Chaining_new 19 = Some htc_empty_19 \<and>
   distinct (map fst (htc_sample 15)) \<and> length (htc_sample 15) = 15 \<and>
   htc_rehashes (\<lambda>k. k) htc_empty_19 (htc_sample 15) = 0 \<and>
   m_table_size (htc_add_all (\<lambda>k. k) htc_empty_19 (htc_sample 15)) = 19"
proof (intro conjI)
  show "HashTable_Chaining_new 19 = Some htc_empty_19" by (rule htc_new_19_empty)
  show "distinct (map fst (htc_sample 15))" by code_simp
  show "length (htc_sample 15) = 15" by code_simp
  show "htc_rehashes (\<lambda>k. k) htc_empty_19 (htc_sample 15) = 0" by code_simp
  show "m_table_size (htc_add_all (\<lambda>k. k) htc_empty_19 (htc_sample 15)) = 19" by code_simp
qed

lemma htc_adds_below_threshold:
  assumes "htc_inv h t" "m_table_size t = 19" "m_load_factor t = 3 / 4"
    and "distinct (map fst kvs)" "fst ` set kvs \<inter> htc_keys t = {}"
    and "m_number_of_elements t + length kvs \<le> 15"
  shows "htc_rehashes h t kvs = 0 \<and> htc_inv h (htc_add_all h t kvs) \<and>
         m_table_size (htc_add_all h t kvs) = 19 \<and>
         m_load_factor (htc_add_all h t kvs) = 3 / 4 \<and>
         m_number_of_elements (htc_add_all h t kvs) = m_number_of_elements t + length kvs"
  using assms
proof (induction kvs arbitrary: t)
  case Nil
  then show ?case by simp
next
  case (Cons kv kvs)
  let ?t' = "snd (htc_add h t (fst kv) (snd kv))"
  have fresh: "fst kv \<notin> htc_keys t" using Cons.prems(5) by auto
  have le: "m_number_of_elements t \<le> 14" using Cons.prems(6) by simp
  have nl: "\<not> load_exceeded t"
    using le Cons.prems(2,3) by (simp add: load_exceeded_def field_simps)
  note a = htc_add_fresh[OF Cons.prems(1) fresh, of "snd kv"]
  have 1: "htc_inv h ?t'" by (rule a(2))
  have 2: "m_table_size ?t' = 19" using a(6) nl Cons.prems(2) by simp
  have 3: "m_load_factor ?t' = 3 / 4" using a(5) Cons.prems(3) by simp
  have 4: "distinct (map fst kvs)" using Cons.prems(4) by simp
  have 5: "fst ` set kvs \<inter> htc_keys ?t' = {}"
    using a(3) Cons.prems(4,5) by auto
  have 6: "m_number_of_elements ?t' + length kvs \<le> 15" using a(4) Cons.prems(6) by simp
  from Cons.IH[OF 1 2 3 4 5 6] nl a(4) show ?case by simp
qed

lemma htc_rehashes_append:
  "htc_rehashes h t (kvs @ [kv]) =
     htc_rehashes h t kvs + (if load_exceeded (htc_add_all h t kvs) then 1 else 0)"
  by (induction kvs arbitrary: t) auto

text \<open>
  Claim C4, amended.  \<open>add\<close> tests the load before it inserts, on the count of elements
  already stored.  So from a fresh table of 19 buckets with load factor 0.75, fifteen adds
  of distinct keys trigger no rehash: the table keeps its 19 buckets and holds 15 elements.
  The first rehash is triggered by the sixteenth add, whatever its key.
\<close>

theorem htc_first_rehash_on_sixteenth_add:
  assumes "HashTable_Chaining_new 19 = Some t0"
    and "distinct (map fst kvs)" and "length kvs = 15"
  shows "htc_rehashes m_hashing t0 kvs = 0 \<and>
         m_table_size (htc_add_all m_hashing t0 kvs) = 19 \<and>
         htc_size (htc_add_all m_hashing t0 kvs) = 15 \<and>
         htc_rehashes m_hashing t0 (kvs @ [kv]) = 1"
proof -
  have t0: "t0 = \<lparr>m_number_of_elements = 0, m_table_size = 19, m_table = replicate 19 [],
                m_load_factor = 0.75, m_max_load_factor = 1.0, htc_n_comparisons = 0\<rparr>"
    using assms(1) unfolding htc_new_19 by simp
  have inv: "htc_inv m_hashing t0" by (rule htc_inv_new[OF assms(1)])
  have k: "fst ` set kvs \<inter> htc_keys t0 = {}" by (simp add: t0 htc_keys_def)
  have sz: "m_table_size t0 = 19" by (simp add: t0)
  have lf: "m_load_factor t0 = 3 / 4" by (simp add: t0)
  have le: "m_number_of_elements t0 + length kvs \<le> 15" by (simp add: t0 assms(3))
  have r: "htc_rehashes m_hashing t0 kvs = 0 \<and> htc_inv m_hashing (htc_add_all m_hashing t0 kvs) \<and>
         m_table_size (htc_add_all m_hashing t0 kvs) = 19 \<and>
         m_load_factor (htc_add_all m_hashing t0 kvs) = 3 / 4 \<and>
         m_number_of_elements (htc_add_all m_hashing t0 kvs) = m_number_of_elements t0 + length kvs"
    by (rule htc_adds_below_threshold[OF inv sz lf assms(2) k le])
  then have n: "m_number_of_elements (htc_add_all m_hashing t0 kvs) = 15"
    by (simp add: t0 assms(3))
  have "load_exceeded (htc_add_all m_hashing t0 kvs)"
    using r n by (simp add: load_exceeded_def)
  then show ?thesis using r n by (simp add: htc_rehashes_append htc_size_def)
qed

text \<open>The amended C4 at the keys 0 to 14 hashed by the identity, followed by key 15.\<close>

theorem htc_first_rehash_on_sixteenth_add_witness:
  "HashTable_Chaining_new 19 = Some htc_empty_19 \<and>
   distinct (map fst (htc_sample 15)) \<and> length (htc_sample 15) = 15 \<and>
   htc_rehashes (\<lambda>k. k) htc_empty_19 (htc_sample 15) = 0 \<and>
   m_table_size (htc_add_all (\<lambda>k. k) htc_empty_19 (htc_sample 15)) = 19 \<and>
   htc_size (htc_add_all (\<lambda>k. k) htc_empty_19 (htc_sample 15)) = 15 \<and>
   htc_rehashes (\<lambda>k. k) htc_empty_19 (htc_sample 15 @ [(15, 15)]) = 1"
proof -
  have n: "HashTable_Chaining_new 19 = Some htc_empty_19"
    by (rule htc_new_19_empty)
  have d: "distinct (map fst (htc_sample 15))" by code_simp
  have l: "length (htc_sample 15) = 15" by code_simp
  show ?thesis
    using htc_first_rehash_on_sixteenth_add[OF n d l, of "\<lambda>k. k" "(15, 15)"] n d l by simp
qed

section \<open>AVL tree (AVLNode.hpp, AVLTree.hpp, AVLTreeIterator.hpp)\<close>

text \<open>
  A node owns its children, and a \<open>NodePtr\<close> is either \<open>nullptr\<close> or the address of a node
  nobody else points to; so a pointer is modelled by the subtree it leads to.  The fields
  are those of \<open>struct AVLNode\<close>, in its order: key, value, left, right, height.  The
  comparator \<open>_less\<close> and \<open>==\<close> on keys are the order and the equality of a linear order.
  Member functions take the tree object (for its counters) and return it updated.
\<close>

datatype ('k, 'v) AVLNode =
    AVLNull
  | AVLNode (avl_key: 'k) (avl_val: 'v) (avl_left: "('k, 'v) AVLNode")
      (avl_right: "('k, 'v) AVLNode") (avl_height: nat)

record ('k, 'v) AVLTree =
  avl_size :: nat
  avl_root :: "('k, 'v) AVLNode"
  avl_n_comparisons :: nat
  avl_n_rotations :: nat

fun avl_height_of :: "('k, 'v) AVLNode \<Rightarrow> int" where
  "avl_height_of AVLNull = 0"
| "avl_height_of (AVLNode k v l r h) = int h"

fun avl_balance :: "('k, 'v) AVLNode \<Rightarrow> int" where
  "avl_balance (AVLNode k v l r h) = avl_height_of r - avl_height_of l"

definition avl_new_height :: "('k, 'v) AVLNode \<Rightarrow> ('k, 'v) AVLNode \<Rightarrow> nat" where
  "avl_new_height l r = nat (1 + max (avl_height_of l) (avl_height_of r))"

fun avl_rotateLeft ::
  "('k, 'v) AVLTree \<Rightarrow> ('k, 'v) AVLNode \<Rightarrow> ('k, 'v) AVLNode \<times> ('k, 'v) AVLTree" where
  "avl_rotateLeft t (AVLNode pk pv pl (AVLNode qk qv ql qr qh) ph) =
     (let p = AVLNode pk pv pl ql (avl_new_height pl ql)
      in (AVLNode qk qv p qr (avl_new_height p qr),
          t\<lparr>avl_n_rotations := avl_n_rotations t + 1\<rparr>))"

fun avl_rotateRight ::
  "('k, 'v) AVLTree \<Rightarrow> ('k, 'v) AVLNode \<Rightarrow> ('k, 'v) AVLNode \<times> ('k, 'v) AVLTree" where
  "avl_rotateRight t (AVLNode pk pv (AVLNode qk qv ql qr qh) pr ph) =
     (let p = AVLNode pk pv qr pr (avl_new_height qr pr)
      in (AVLNode qk qv ql p (avl_new_height ql p),
          t\<lparr>avl_n_rotations := avl_n_rotations t + 1\<rparr>))"

fun avl_fixup_node ::
  "('k::linorder, 'v) AVLTree \<Rightarrow> ('k, 'v) AVLNode \<Rightarrow> 'k
     \<Rightarrow> ('k, 'v) AVLNode \<times> ('k, 'v) AVLTree" where
  "avl_fixup_node t (AVLNode k v l r h) key =
     (let node = AVLNode k v l r (avl_new_height l r);
          bal = avl_balance node
      in if bal < -1 \<and> key < avl_key l then avl_rotateRight t node
         else if bal < -1 \<and> avl_key l < key then
           (case avl_rotateLeft t l of
              (l', t1) \<Rightarrow> avl_rotateRight t1 (AVLNode k v l' r (avl_new_height l r)))
         else if bal > 1 \<and> avl_key r < key then avl_rotateLeft t node
         else if bal > 1 \<and> key < avl_key r then
           (case avl_rotateRight t r of
              (r', t1) \<Rightarrow> avl_rotateLeft t1 (AVLNode k v l r' (avl_new_height l r)))
         else (node, t))"

fun avl_insert ::
  "('k::linorder, 'v) AVLTree \<Rightarrow> ('k, 'v) AVLNode \<Rightarrow> 'k \<Rightarrow> 'v
     \<Rightarrow> ('k, 'v) AVLNode \<times> ('k, 'v) AVLTree" where
  "avl_insert t AVLNull key val =
     (AVLNode key val AVLNull AVLNull 1,
      t\<lparr>avl_n_comparisons := avl_n_comparisons t + 1, avl_size := avl_size t + 1\<rparr>)"
| "avl_insert t (AVLNode k v l r h) key val =
     (if key = k then (AVLNode k v l r h, t\<lparr>avl_n_comparisons := avl_n_comparisons t + 1\<rparr>)
      else if key < k then
        (case avl_insert (t\<lparr>avl_n_comparisons := avl_n_comparisons t + 1\<rparr>) l key val of
           (l', t1) \<Rightarrow> avl_fixup_node t1 (AVLNode k v l' r h) key)
      else
        (case avl_insert (t\<lparr>avl_n_comparisons := avl_n_comparisons t + 1\<rparr>) r key val of
           (r', t1) \<Rightarrow> avl_fixup_node t1 (AVLNode k v l r' h) key))"

fun avl_fixup_deletion ::
  "('k, 'v) AVLTree \<Rightarrow> ('k, 'v) AVLNode \<Rightarrow> ('k, 'v) AVLNode \<times> ('k, 'v) AVLTree" where
  "avl_fixup_deletion t AVLNull = (AVLNull, t)"
| "avl_fixup_deletion t (AVLNode k v l r h) =
     (let node = AVLNode k v l r (avl_new_height l r);
          bal = avl_balance node
      in if bal < -1 then
           (if avl_balance l \<le> 0 then avl_rotateRight t node
            else (case avl_rotateLeft t l of
                    (l', t1) \<Rightarrow> avl_rotateRight t1 (AVLNode k v l' r (avl_new_height l r))))
         else if bal > 1 then
           (if avl_balance r \<ge> 0 then avl_rotateLeft t node
            else (case avl_rotateRight t r of
                    (r', t1) \<Rightarrow> avl_rotateLeft t1 (AVLNode k v l r' (avl_new_height l r))))
         else (node, t))"

text \<open>
  \<open>_remove_successor(node, successor)\<close> writes the key and value of the leftmost node below
  \<open>successor\<close> into \<open>node\<close>, an ancestor; the model returns that pair beside the new subtree and
  the caller stores it.
\<close>

fun avl_remove_successor ::
  "('k, 'v) AVLTree \<Rightarrow> ('k, 'v) AVLNode
     \<Rightarrow> ('k, 'v) AVLNode \<times> ('k \<times> 'v) \<times> ('k, 'v) AVLTree" where
  "avl_remove_successor t (AVLNode k v l r h) =
     (if l \<noteq> AVLNull then
        (case avl_remove_successor t l of
           (l', kv, t1) \<Rightarrow>
             (case avl_fixup_deletion t1 (AVLNode k v l' r h) of
                (successor', t2) \<Rightarrow> (successor', kv, t2)))
      else (r, (k, v), t))"

fun avl_remove ::
  "('k::linorder, 'v) AVLTree \<Rightarrow> ('k, 'v) AVLNode \<Rightarrow> 'k
     \<Rightarrow> ('k, 'v) AVLNode \<times> ('k, 'v) AVLTree" where
  "avl_remove t AVLNull key =
     (AVLNull, t\<lparr>avl_n_comparisons := avl_n_comparisons t + 1\<rparr>)"
| "avl_remove t (AVLNode k v l r h) key =
     (let t0 = t\<lparr>avl_n_comparisons := avl_n_comparisons t + 1\<rparr>
      in if key < k then
           (case avl_remove t0 l key of
              (l', t1) \<Rightarrow> avl_fixup_deletion t1 (AVLNode k v l' r h))
         else if k < key then
           (case avl_remove t0 r key of
              (r', t1) \<Rightarrow> avl_fixup_deletion t1 (AVLNode k v l r' h))
         else if r = AVLNull then (l, t0\<lparr>avl_size := dec_size_t (avl_size t0)\<rparr>)
         else
           (case avl_remove_successor t0 r of
              (r', (sk, sv), t1) \<Rightarrow>
                avl_fixup_deletion (t1\<lparr>avl_size := dec_size_t (avl_size t1)\<rparr>)
                  (AVLNode sk sv l r' h)))"

text \<open>The search loop of \<open>_findNode\<close>, from the node \<open>cur\<close>.\<close>

fun avl_findNode ::
  "('k::linorder, 'v) AVLTree \<Rightarrow> ('k, 'v) AVLNode \<Rightarrow> 'k
     \<Rightarrow> ('k, 'v) AVLNode \<times> ('k, 'v) AVLTree" where
  "avl_findNode t AVLNull k = (AVLNull, t)"
| "avl_findNode t (AVLNode ck cv cl cr ch) k =
     (if ck \<noteq> k then
        avl_findNode (t\<lparr>avl_n_comparisons := avl_n_comparisons t + 3\<rparr>)
          (if ck < k then cr else cl) k
      else (AVLNode ck cv cl cr ch, t))"

definition AVLTree_new :: "('k, 'v) AVLTree" where
  "AVLTree_new = \<lparr>avl_size = 0, avl_root = AVLNull, avl_n_comparisons = 0, avl_n_rotations = 0\<rparr>"

definition AVLTree_insert :: "('k::linorder, 'v) AVLTree \<Rightarrow> 'k \<Rightarrow> 'v \<Rightarrow> ('k, 'v) AVLTree" where
  "AVLTree_insert t k v = (case avl_insert t (avl_root t) k v of (r, t') \<Rightarrow> t'\<lparr>avl_root := r\<rparr>)"

definition AVLTree_erase :: "('k::linorder, 'v) AVLTree \<Rightarrow> 'k \<Rightarrow> ('k, 'v) AVLTree" where
  "AVLTree_erase t k = (case avl_remove t (avl_root t) k of (r, t') \<Rightarrow> t'\<lparr>avl_root := r\<rparr>)"

definition AVLTree_size :: "('k, 'v) AVLTree \<Rightarrow> nat" where
  "AVLTree_size t = avl_size t"

definition AVLTree_contains :: "('k::linorder, 'v) AVLTree \<Rightarrow> 'k \<Rightarrow> bool \<times> ('k, 'v) AVLTree" where
  "AVLTree_contains t k =
     (case avl_findNode t (avl_root t) k of (cur, t') \<Rightarrow> (cur \<noteq> AVLNull, t'))"

definition AVLTree_at :: "('k::linorder, 'v) AVLTree \<Rightarrow> 'k \<Rightarrow> 'v outcome \<times> ('k, 'v) AVLTree" where
  "AVLTree_at t k =
     (case avl_findNode t (avl_root t) k of
        (cur, t') \<Rightarrow>
          (if cur = AVLNull
           then (Throws AVL_ValueNotFoundException,
                 t'\<lparr>avl_n_comparisons := avl_n_comparisons t' + 1\<rparr>)
           else (Returns (avl_val cur), t')))"

text \<open>A client's sequence of calls on one tree.\<close>

datatype ('k, 'v) avl_op = AVL_Insert 'k 'v | AVL_Erase 'k

fun AVLTree_apply :: "('k::linorder, 'v) AVLTree \<Rightarrow> ('k, 'v) avl_op \<Rightarrow> ('k, 'v) AVLTree" where
  "AVLTree_apply t (AVL_Insert k v) = AVLTree_insert t k v"
| "AVLTree_apply t (AVL_Erase k) = AVLTree_erase t k"

definition AVLTree_run :: "('k::linorder, 'v) avl_op list \<Rightarrow> ('k, 'v) AVLTree" where
  "AVLTree_run ops = foldl AVLTree_apply AVLTree_new ops"

text \<open>The invariant of the claims: at every node the stored height is one more than the
  larger of the children's heights, and the children's heights differ by at most one.\<close>

fun avl_inv :: "('k, 'v) AVLNode \<Rightarrow> bool" where
  "avl_inv AVLNull = True"
| "avl_inv (AVLNode k v l r h) =
     (int h = 1 + max (avl_height_of l) (avl_height_of r) \<and>
      \<bar>avl_height_of l - avl_height_of r\<bar> \<le> 1 \<and> avl_inv l \<and> avl_inv r)"

fun avl_hnat :: "('k, 'v) AVLNode \<Rightarrow> nat" where
  "avl_hnat AVLNull = 0"
| "avl_hnat (AVLNode k v l r h) = h"

lemma avl_height_of_int [simp]: "avl_height_of n = int (avl_hnat n)"
  by (cases n) auto

lemma avl_height_of_nonneg: "0 \<le> avl_height_of n"
  by simp

lemma avl_inv_height_pos: "avl_inv n \<Longrightarrow> n \<noteq> AVLNull \<Longrightarrow> 1 \<le> avl_height_of n"
  by (cases n) (auto simp: le_max_iff_disj)

lemma avl_height_0_iff: "avl_inv n \<Longrightarrow> avl_height_of n = 0 \<longleftrightarrow> n = AVLNull"
  using avl_inv_height_pos[of n] by (cases n) auto

lemma avl_fixup_node_balanced:
  assumes "\<bar>avl_height_of l - avl_height_of r\<bar> \<le> 1"
  shows "fst (avl_fixup_node t (AVLNode k v l r h) key) = AVLNode k v l r (avl_new_height l r)"
  using assms by (auto simp: Let_def)

lemma avl_fixup_node_left_heavy:
  assumes "avl_inv l" "avl_inv r" "avl_height_of l = avl_height_of r + 2"
    and "key \<noteq> avl_key l"
    and "key < avl_key l \<longrightarrow> avl_height_of (avl_left l) = avl_height_of (avl_right l) + 1"
    and "avl_key l < key \<longrightarrow> avl_height_of (avl_right l) = avl_height_of (avl_left l) + 1"
  shows "avl_inv (fst (avl_fixup_node t (AVLNode k v l r h) key)) \<and>
         avl_height_of (fst (avl_fixup_node t (AVLNode k v l r h) key)) = avl_height_of r + 2"
proof (cases l)
  case AVLNull
  then show ?thesis using assms(3) avl_height_of_nonneg[of r] by simp
next
  case L: (AVLNode lk lv ll lr lh)
  show ?thesis
  proof (cases "key < lk")
    case True
    then show ?thesis using assms L
      by (auto simp: Let_def avl_new_height_def)
  next
    case False
    then have lt: "lk < key" using assms(4) L by auto
    then have "avl_height_of lr = avl_height_of ll + 1" using assms(6) L by simp
    then obtain mk mv ml mr mh where M: "lr = AVLNode mk mv ml mr mh"
      using avl_height_of_nonneg[of ll] by (cases lr) auto
    show ?thesis using assms L M lt False
      by (auto simp: Let_def avl_new_height_def)
  qed
qed


lemma avl_fixup_node_right_heavy:
  assumes "avl_inv l" "avl_inv r" "avl_height_of r = avl_height_of l + 2"
    and "key \<noteq> avl_key r"
    and "key < avl_key r \<longrightarrow> avl_height_of (avl_left r) = avl_height_of (avl_right r) + 1"
    and "avl_key r < key \<longrightarrow> avl_height_of (avl_right r) = avl_height_of (avl_left r) + 1"
  shows "avl_inv (fst (avl_fixup_node t (AVLNode k v l r h) key)) \<and>
         avl_height_of (fst (avl_fixup_node t (AVLNode k v l r h) key)) = avl_height_of l + 2"
proof (cases r)
  case AVLNull
  then show ?thesis using assms(3) avl_height_of_nonneg[of l] by simp
next
  case R: (AVLNode rk rv rl rr rh)
  show ?thesis
  proof (cases "rk < key")
    case True
    then show ?thesis using assms R
      by (auto simp: Let_def avl_new_height_def)
  next
    case False
    then have lt: "key < rk" using assms(4) R by auto
    then have "avl_height_of rl = avl_height_of rr + 1" using assms(5) R by simp
    then obtain mk mv ml mr mh where M: "rl = AVLNode mk mv ml mr mh"
      using avl_height_of_nonneg[of rr] by (cases rl) auto
    show ?thesis using assms R M lt False
      by (auto simp: Let_def avl_new_height_def)
  qed
qed

definition avl_grew ::
  "('k::linorder, 'v) AVLNode \<Rightarrow> ('k, 'v) AVLNode \<Rightarrow> 'k \<Rightarrow> bool" where
  "avl_grew n n' key =
     (avl_key n' = avl_key n \<and> key \<noteq> avl_key n \<and>
      (key < avl_key n \<longrightarrow> avl_height_of (avl_left n') = avl_height_of (avl_right n') + 1) \<and>
      (avl_key n < key \<longrightarrow> avl_height_of (avl_right n') = avl_height_of (avl_left n') + 1))"

lemma avl_insert_inv:
  assumes "avl_inv n"
  shows "avl_inv (fst (avl_insert t n key val)) \<and>
         (avl_height_of (fst (avl_insert t n key val)) = avl_height_of n \<or>
          avl_height_of (fst (avl_insert t n key val)) = avl_height_of n + 1 \<and>
          (n \<noteq> AVLNull \<longrightarrow> avl_grew n (fst (avl_insert t n key val)) key))"
  using assms
proof (induction n arbitrary: t)
  case AVLNull
  then show ?case by simp
next
  case (AVLNode k v l r h)
  have il: "avl_inv l" and ir: "avl_inv r" using AVLNode.prems by auto
  have hh: "int h = 1 + max (avl_height_of l) (avl_height_of r)"
    and bal: "\<bar>avl_height_of l - avl_height_of r\<bar> \<le> 1" using AVLNode.prems by auto
  show ?case
  proof (cases "key = k")
    case True
    then show ?thesis using AVLNode.prems by simp
  next
    case neq: False
    show ?thesis
    proof (cases "key < k")
      case True
      let ?t0 = "t\<lparr>avl_n_comparisons := avl_n_comparisons t + 1\<rparr>"
      obtain l' t1 where ins: "avl_insert ?t0 l key val = (l', t1)" by fastforce
      have res: "avl_insert t (AVLNode k v l r h) key val = avl_fixup_node t1 (AVLNode k v l' r h) key"
        using neq True ins by simp
      from AVLNode.IH(1)[OF il, of ?t0] ins
      have il': "avl_inv l'"
        and hl': "avl_height_of l' = avl_height_of l \<or>
                  avl_height_of l' = avl_height_of l + 1 \<and> (l \<noteq> AVLNull \<longrightarrow> avl_grew l l' key)"
        by auto
      show ?thesis
      proof (cases "avl_height_of l' = avl_height_of r + 2")
        case True
        then have g: "avl_height_of l' = avl_height_of l + 1" and lr: "avl_height_of l = avl_height_of r + 1"
          using hl' bal by auto
        have "l \<noteq> AVLNull"
        proof
          assume "l = AVLNull"
          then have "avl_height_of r + 1 = 0" using lr by simp
          then show False using avl_height_of_nonneg[of r] by linarith
        qed
        then have gr: "avl_grew l l' key" using hl' g by auto
        have "1 \<le> avl_height_of l'" using g by simp
        have kk: "key \<noteq> avl_key l'" using gr by (auto simp: avl_grew_def)
        have c1: "key < avl_key l' \<longrightarrow> avl_height_of (avl_left l') = avl_height_of (avl_right l') + 1"
          using gr by (auto simp: avl_grew_def)
        have c2: "avl_key l' < key \<longrightarrow> avl_height_of (avl_right l') = avl_height_of (avl_left l') + 1"
          using gr by (auto simp: avl_grew_def)
        from avl_fixup_node_left_heavy[OF il' ir True kk c1 c2, of t1 k v h]
        show ?thesis unfolding res using lr hh by auto
      next
        case False
        then have b': "\<bar>avl_height_of l' - avl_height_of r\<bar> \<le> 1" using hl' bal by auto
        have eq: "fst (avl_fixup_node t1 (AVLNode k v l' r h) key) = AVLNode k v l' r (avl_new_height l' r)"
          by (rule avl_fixup_node_balanced[OF b'])
        show ?thesis unfolding res eq
          using il' ir b' hl' hh bal True neq avl_height_of_nonneg[of r] avl_height_of_nonneg[of l]
          by (auto simp: avl_new_height_def avl_grew_def)
      qed
    next
      case nlt: False
      then have gt: "k < key" using neq by auto
      let ?t0 = "t\<lparr>avl_n_comparisons := avl_n_comparisons t + 1\<rparr>"
      obtain r' t1 where ins: "avl_insert ?t0 r key val = (r', t1)" by fastforce
      have res: "avl_insert t (AVLNode k v l r h) key val = avl_fixup_node t1 (AVLNode k v l r' h) key"
        using neq nlt ins by simp
      from AVLNode.IH(2)[OF ir, of ?t0] ins
      have ir': "avl_inv r'"
        and hr': "avl_height_of r' = avl_height_of r \<or>
                  avl_height_of r' = avl_height_of r + 1 \<and> (r \<noteq> AVLNull \<longrightarrow> avl_grew r r' key)"
        by auto
      show ?thesis
      proof (cases "avl_height_of r' = avl_height_of l + 2")
        case True
        then have g: "avl_height_of r' = avl_height_of r + 1" and lr: "avl_height_of r = avl_height_of l + 1"
          using hr' bal by auto
        have "r \<noteq> AVLNull"
        proof
          assume "r = AVLNull"
          then have "avl_height_of l + 1 = 0" using lr by simp
          then show False using avl_height_of_nonneg[of l] by linarith
        qed
        then have gr: "avl_grew r r' key" using hr' g by auto
        have kk: "key \<noteq> avl_key r'" using gr by (auto simp: avl_grew_def)
        have c1: "key < avl_key r' \<longrightarrow> avl_height_of (avl_left r') = avl_height_of (avl_right r') + 1"
          using gr by (auto simp: avl_grew_def)
        have c2: "avl_key r' < key \<longrightarrow> avl_height_of (avl_right r') = avl_height_of (avl_left r') + 1"
          using gr by (auto simp: avl_grew_def)
        from avl_fixup_node_right_heavy[OF il ir' True kk c1 c2, of t1 k v h]
        show ?thesis unfolding res using lr hh by auto
      next
        case False
        then have b': "\<bar>avl_height_of l - avl_height_of r'\<bar> \<le> 1" using hr' bal by auto
        have eq: "fst (avl_fixup_node t1 (AVLNode k v l r' h) key) = AVLNode k v l r' (avl_new_height l r')"
          by (rule avl_fixup_node_balanced[OF b'])
        show ?thesis unfolding res eq
          using il ir' b' hr' hh bal gt neq avl_height_of_nonneg[of r] avl_height_of_nonneg[of l]
          by (auto simp: avl_new_height_def avl_grew_def)
      qed
    qed
  qed
qed

lemma avl_fixup_deletion_inv:
  assumes "avl_inv l" "avl_inv r" "\<bar>avl_height_of l - avl_height_of r\<bar> \<le> 2"
  shows "avl_inv (fst (avl_fixup_deletion t (AVLNode k v l r h))) \<and>
         (avl_height_of (fst (avl_fixup_deletion t (AVLNode k v l r h)))
            = 1 + max (avl_height_of l) (avl_height_of r) \<or>
          \<bar>avl_height_of l - avl_height_of r\<bar> = 2 \<and>
          avl_height_of (fst (avl_fixup_deletion t (AVLNode k v l r h)))
            = max (avl_height_of l) (avl_height_of r))"
proof -
  consider (bal) "\<bar>avl_height_of l - avl_height_of r\<bar> \<le> 1"
    | (left) "avl_height_of l = avl_height_of r + 2"
    | (right) "avl_height_of r = avl_height_of l + 2"
    using assms(3) by linarith
  then show ?thesis
  proof cases
    case bal
    then show ?thesis using assms(1,2) by (auto simp: Let_def avl_new_height_def)
  next
    case left
    then obtain lk lv ll lr lh where L: "l = AVLNode lk lv ll lr lh"
      by (cases l) auto
    show ?thesis
    proof (cases "avl_height_of lr \<le> avl_height_of ll")
      case True
      then show ?thesis using assms(1,2) left L
        by (auto simp: Let_def avl_new_height_def)
    next
      case False
      then obtain mk mv ml mr mh where M: "lr = AVLNode mk mv ml mr mh"
        by (cases lr) auto
      show ?thesis using assms(1,2) left L M False
        by (auto simp: Let_def avl_new_height_def)
    qed
  next
    case right
    then obtain rk rv rl rr rh where R: "r = AVLNode rk rv rl rr rh"
      by (cases r) auto
    show ?thesis
    proof (cases "avl_height_of rl \<le> avl_height_of rr")
      case True
      then show ?thesis using assms(1,2) right R
        by (auto simp: Let_def avl_new_height_def)
    next
      case False
      then obtain mk mv ml mr mh where M: "rl = AVLNode mk mv ml mr mh"
        by (cases rl) auto
      show ?thesis using assms(1,2) right R M False
        by (auto simp: Let_def avl_new_height_def)
    qed
  qed
qed

lemma avl_remove_successor_inv:
  assumes "avl_inv n" "n \<noteq> AVLNull"
  shows "avl_inv (fst (avl_remove_successor t n)) \<and>
         (avl_height_of (fst (avl_remove_successor t n)) = avl_height_of n \<or>
          avl_height_of (fst (avl_remove_successor t n)) = avl_height_of n - 1)"
  using assms
proof (induction n arbitrary: t)
  case AVLNull
  then show ?case by simp
next
  case (AVLNode k v l r h)
  have il: "avl_inv l" and ir: "avl_inv r" using AVLNode.prems by auto
  have hh: "int h = 1 + max (avl_height_of l) (avl_height_of r)"
    and bal: "\<bar>avl_height_of l - avl_height_of r\<bar> \<le> 1" using AVLNode.prems by auto
  show ?case
  proof (cases "l = AVLNull")
    case True
    then show ?thesis using ir hh bal by auto
  next
    case False
    obtain l' kv t1 where rs: "avl_remove_successor t l = (l', kv, t1)"
      by (metis prod_cases3)
    have res: "fst (avl_remove_successor t (AVLNode k v l r h)) =
               fst (avl_fixup_deletion t1 (AVLNode k v l' r h))"
      using False rs by (simp split: prod.splits del: avl_fixup_deletion.simps)
    from AVLNode.IH(1)[OF il False, of t] rs
    have il': "avl_inv l'"
      and hl': "avl_height_of l' = avl_height_of l \<or> avl_height_of l' = avl_height_of l - 1"
      by auto
    have b2: "\<bar>avl_height_of l' - avl_height_of r\<bar> \<le> 2" using hl' bal by linarith
    from avl_fixup_deletion_inv[OF il' ir b2, of t1 k v h]
    show ?thesis unfolding res using hl' bal hh by auto
  qed
qed

lemma avl_remove_inv:
  assumes "avl_inv n"
  shows "avl_inv (fst (avl_remove t n key)) \<and>
         (avl_height_of (fst (avl_remove t n key)) = avl_height_of n \<or>
          avl_height_of (fst (avl_remove t n key)) = avl_height_of n - 1)"
  using assms
proof (induction n arbitrary: t)
  case AVLNull
  then show ?case by simp
next
  case (AVLNode k v l r h)
  have il: "avl_inv l" and ir: "avl_inv r" using AVLNode.prems by auto
  have hh: "int h = 1 + max (avl_height_of l) (avl_height_of r)"
    and bal: "\<bar>avl_height_of l - avl_height_of r\<bar> \<le> 1" using AVLNode.prems by auto
  let ?t0 = "t\<lparr>avl_n_comparisons := avl_n_comparisons t + 1\<rparr>"
  consider (lt) "key < k" | (gt) "k < key" | (eq) "key = k" by fastforce
  then show ?case
  proof cases
    case lt
    obtain l' t1 where rm: "avl_remove ?t0 l key = (l', t1)" by fastforce
    have res: "avl_remove t (AVLNode k v l r h) key = avl_fixup_deletion t1 (AVLNode k v l' r h)"
      using lt rm by (simp add: Let_def del: avl_fixup_deletion.simps)
    from AVLNode.IH(1)[OF il, of ?t0] rm
    have il': "avl_inv l'"
      and hl': "avl_height_of l' = avl_height_of l \<or> avl_height_of l' = avl_height_of l - 1"
      by auto
    have b2: "\<bar>avl_height_of l' - avl_height_of r\<bar> \<le> 2" using hl' bal by linarith
    from avl_fixup_deletion_inv[OF il' ir b2, of t1 k v h]
    show ?thesis unfolding res using hl' bal hh by auto
  next
    case gt
    obtain r' t1 where rm: "avl_remove ?t0 r key = (r', t1)" by fastforce
    have res: "avl_remove t (AVLNode k v l r h) key = avl_fixup_deletion t1 (AVLNode k v l r' h)"
      using gt rm less_asym[OF gt] by (auto simp: Let_def simp del: avl_fixup_deletion.simps)
    from AVLNode.IH(2)[OF ir, of ?t0] rm
    have ir': "avl_inv r'"
      and hr': "avl_height_of r' = avl_height_of r \<or> avl_height_of r' = avl_height_of r - 1"
      by auto
    have b2: "\<bar>avl_height_of l - avl_height_of r'\<bar> \<le> 2" using hr' bal by linarith
    from avl_fixup_deletion_inv[OF il ir' b2, of t1 k v h]
    show ?thesis unfolding res using hr' bal hh by auto
  next
    case eq
    show ?thesis
    proof (cases "r = AVLNull")
      case True
      then show ?thesis using eq il hh bal by (auto simp: Let_def)
    next
      case False
      obtain r' sk sv t1 where rs: "avl_remove_successor ?t0 r = (r', (sk, sv), t1)"
        by (metis prod_cases3 surj_pair)
      have res: "avl_remove t (AVLNode k v l r h) key =
                 avl_fixup_deletion (t1\<lparr>avl_size := dec_size_t (avl_size t1)\<rparr>) (AVLNode sk sv l r' h)"
        using eq False rs by (simp add: Let_def del: avl_fixup_deletion.simps)
      from avl_remove_successor_inv[OF ir False, of ?t0] rs
      have ir': "avl_inv r'"
        and hr': "avl_height_of r' = avl_height_of r \<or> avl_height_of r' = avl_height_of r - 1"
        by auto
      have b2: "\<bar>avl_height_of l - avl_height_of r'\<bar> \<le> 2" using hr' bal by linarith
      from avl_fixup_deletion_inv[OF il ir' b2, of "t1\<lparr>avl_size := dec_size_t (avl_size t1)\<rparr>" sk sv h]
      show ?thesis unfolding res using hr' bal hh by auto
    qed
  qed
qed

fun avl_inorder :: "('k, 'v) AVLNode \<Rightarrow> ('k \<times> 'v) list" where
  "avl_inorder AVLNull = []"
| "avl_inorder (AVLNode k v l r h) = avl_inorder l @ (k, v) # avl_inorder r"

definition avl_bst :: "('k::linorder, 'v) AVLNode \<Rightarrow> bool" where
  "avl_bst n = sorted_wrt (<) (map fst (avl_inorder n))"

definition avl_keys :: "('k, 'v) AVLNode \<Rightarrow> 'k set" where
  "avl_keys n = fst ` set (avl_inorder n)"

lemma avl_fixup_node_balanced_snd:
  assumes "\<bar>avl_height_of l - avl_height_of r\<bar> \<le> 1"
  shows "snd (avl_fixup_node t (AVLNode k v l r h) key) = t"
  using assms by (auto simp: Let_def)

lemma avl_fixup_node_left_heavy_inorder:
  assumes "avl_inv l" "avl_inv r" "avl_height_of l = avl_height_of r + 2"
    and "key \<noteq> avl_key l"
    and "key < avl_key l \<longrightarrow> avl_height_of (avl_left l) = avl_height_of (avl_right l) + 1"
    and "avl_key l < key \<longrightarrow> avl_height_of (avl_right l) = avl_height_of (avl_left l) + 1"
  shows "avl_inorder (fst (avl_fixup_node t (AVLNode k v l r h) key)) =
         avl_inorder l @ (k, v) # avl_inorder r \<and>
         avl_size (snd (avl_fixup_node t (AVLNode k v l r h) key)) = avl_size t"
proof (cases l)
  case AVLNull
  then show ?thesis using assms(3) avl_height_of_nonneg[of r] by simp
next
  case L: (AVLNode lk lv ll lr lh)
  show ?thesis
  proof (cases "key < lk")
    case True
    then show ?thesis using assms L
      by (auto simp: Let_def avl_new_height_def)
  next
    case False
    then have lt: "lk < key" using assms(4) L by auto
    then have "avl_height_of lr = avl_height_of ll + 1" using assms(6) L by simp
    then obtain mk mv ml mr mh where M: "lr = AVLNode mk mv ml mr mh"
      using avl_height_of_nonneg[of ll] by (cases lr) auto
    show ?thesis using assms L M lt False
      by (auto simp: Let_def avl_new_height_def)
  qed
qed

lemma avl_fixup_node_right_heavy_inorder:
  assumes "avl_inv l" "avl_inv r" "avl_height_of r = avl_height_of l + 2"
    and "key \<noteq> avl_key r"
    and "key < avl_key r \<longrightarrow> avl_height_of (avl_left r) = avl_height_of (avl_right r) + 1"
    and "avl_key r < key \<longrightarrow> avl_height_of (avl_right r) = avl_height_of (avl_left r) + 1"
  shows "avl_inorder (fst (avl_fixup_node t (AVLNode k v l r h) key)) =
         avl_inorder l @ (k, v) # avl_inorder r \<and>
         avl_size (snd (avl_fixup_node t (AVLNode k v l r h) key)) = avl_size t"
proof (cases r)
  case AVLNull
  then show ?thesis using assms(3) avl_height_of_nonneg[of l] by simp
next
  case R: (AVLNode rk rv rl rr rh)
  show ?thesis
  proof (cases "rk < key")
    case True
    then show ?thesis using assms R
      by (auto simp: Let_def avl_new_height_def)
  next
    case False
    then have lt: "key < rk" using assms(4) R by auto
    then have "avl_height_of rl = avl_height_of rr + 1" using assms(5) R by simp
    then obtain mk mv ml mr mh where M: "rl = AVLNode mk mv ml mr mh"
      using avl_height_of_nonneg[of rr] by (cases rl) auto
    show ?thesis using assms R M lt False
      by (auto simp: Let_def avl_new_height_def)
  qed
qed


lemma avl_insert_step_left:
  assumes inv: "avl_inv (AVLNode k v l r h)" and ins: "avl_insert t0 l key val = (l', t1)"
  shows "avl_inorder (fst (avl_fixup_node t1 (AVLNode k v l' r h) key)) =
         avl_inorder l' @ (k, v) # avl_inorder r \<and>
         avl_size (snd (avl_fixup_node t1 (AVLNode k v l' r h) key)) = avl_size t1"
proof -
  have il: "avl_inv l" and ir: "avl_inv r" using inv by auto
  have bal: "\<bar>avl_height_of l - avl_height_of r\<bar> \<le> 1" using inv by auto
  from avl_insert_inv[OF il, of t0 key val] ins
  have il': "avl_inv l'"
    and hl': "avl_height_of l' = avl_height_of l \<or>
              avl_height_of l' = avl_height_of l + 1 \<and> (l \<noteq> AVLNull \<longrightarrow> avl_grew l l' key)"
    by auto
  show ?thesis
  proof (cases "avl_height_of l' = avl_height_of r + 2")
    case True
    then have g: "avl_height_of l' = avl_height_of l + 1" and lr: "avl_height_of l = avl_height_of r + 1"
      using hl' bal by auto
    have "l \<noteq> AVLNull" using lr by (cases l) auto
    then have gr: "avl_grew l l' key" using hl' g by auto
    have kk: "key \<noteq> avl_key l'" using gr by (auto simp: avl_grew_def)
    have c1: "key < avl_key l' \<longrightarrow> avl_height_of (avl_left l') = avl_height_of (avl_right l') + 1"
      using gr by (auto simp: avl_grew_def)
    have c2: "avl_key l' < key \<longrightarrow> avl_height_of (avl_right l') = avl_height_of (avl_left l') + 1"
      using gr by (auto simp: avl_grew_def)
    show ?thesis by (rule avl_fixup_node_left_heavy_inorder[OF il' ir True kk c1 c2])
  next
    case False
    then have b': "\<bar>avl_height_of l' - avl_height_of r\<bar> \<le> 1" using hl' bal by auto
    show ?thesis
      using avl_fixup_node_balanced[OF b', of t1 k v h key]
        avl_fixup_node_balanced_snd[OF b', of t1 k v h key] by simp
  qed
qed

lemma avl_insert_step_right:
  assumes inv: "avl_inv (AVLNode k v l r h)" and ins: "avl_insert t0 r key val = (r', t1)"
  shows "avl_inorder (fst (avl_fixup_node t1 (AVLNode k v l r' h) key)) =
         avl_inorder l @ (k, v) # avl_inorder r' \<and>
         avl_size (snd (avl_fixup_node t1 (AVLNode k v l r' h) key)) = avl_size t1"
proof -
  have il: "avl_inv l" and ir: "avl_inv r" using inv by auto
  have bal: "\<bar>avl_height_of l - avl_height_of r\<bar> \<le> 1" using inv by auto
  from avl_insert_inv[OF ir, of t0 key val] ins
  have ir': "avl_inv r'"
    and hr': "avl_height_of r' = avl_height_of r \<or>
              avl_height_of r' = avl_height_of r + 1 \<and> (r \<noteq> AVLNull \<longrightarrow> avl_grew r r' key)"
    by auto
  show ?thesis
  proof (cases "avl_height_of r' = avl_height_of l + 2")
    case True
    then have g: "avl_height_of r' = avl_height_of r + 1" and lr: "avl_height_of r = avl_height_of l + 1"
      using hr' bal by auto
    have "r \<noteq> AVLNull" using lr by (cases r) auto
    then have gr: "avl_grew r r' key" using hr' g by auto
    have kk: "key \<noteq> avl_key r'" using gr by (auto simp: avl_grew_def)
    have c1: "key < avl_key r' \<longrightarrow> avl_height_of (avl_left r') = avl_height_of (avl_right r') + 1"
      using gr by (auto simp: avl_grew_def)
    have c2: "avl_key r' < key \<longrightarrow> avl_height_of (avl_right r') = avl_height_of (avl_left r') + 1"
      using gr by (auto simp: avl_grew_def)
    show ?thesis by (rule avl_fixup_node_right_heavy_inorder[OF il ir' True kk c1 c2])
  next
    case False
    then have b': "\<bar>avl_height_of l - avl_height_of r'\<bar> \<le> 1" using hr' bal by auto
    show ?thesis
      using avl_fixup_node_balanced[OF b', of t1 k v h key]
        avl_fixup_node_balanced_snd[OF b', of t1 k v h key] by simp
  qed
qed

text \<open>What insertion does to the keys, to the order and to the element counter.\<close>

lemma avl_insert_keys:
  assumes "avl_inv n"
  shows "avl_keys (fst (avl_insert t n key val)) = insert key (avl_keys n)"
  using assms
proof (induction n arbitrary: t)
  case AVLNull
  then show ?case by (simp add: avl_keys_def)
next
  case (AVLNode k v l r h)
  have il: "avl_inv l" and ir: "avl_inv r" using AVLNode.prems by auto
  let ?t0 = "t\<lparr>avl_n_comparisons := avl_n_comparisons t + 1\<rparr>"
  consider (eq) "key = k" | (lt) "key < k" | (gt) "k < key" by fastforce
  then show ?case
  proof cases
    case eq
    then show ?thesis by (auto simp: avl_keys_def)
  next
    case lt
    obtain l' t1 where ins: "avl_insert ?t0 l key val = (l', t1)" by fastforce
    have res: "avl_insert t (AVLNode k v l r h) key val = avl_fixup_node t1 (AVLNode k v l' r h) key"
      using lt ins by (auto simp del: avl_fixup_node.simps)
    have "avl_keys l' = insert key (avl_keys l)" using AVLNode.IH(1)[OF il, of ?t0] ins by simp
    then show ?thesis unfolding res
      using avl_insert_step_left[OF AVLNode.prems ins] by (auto simp: avl_keys_def)
  next
    case gt
    obtain r' t1 where ins: "avl_insert ?t0 r key val = (r', t1)" by fastforce
    have res: "avl_insert t (AVLNode k v l r h) key val = avl_fixup_node t1 (AVLNode k v l r' h) key"
      using gt ins less_asym[OF gt] by (auto simp del: avl_fixup_node.simps)
    have "avl_keys r' = insert key (avl_keys r)" using AVLNode.IH(2)[OF ir, of ?t0] ins by simp
    then show ?thesis unfolding res
      using avl_insert_step_right[OF AVLNode.prems ins] by (auto simp: avl_keys_def)
  qed
qed

lemma avl_bst_node:
  "avl_bst (AVLNode k v l r h) \<longleftrightarrow>
     avl_bst l \<and> avl_bst r \<and> (\<forall>x \<in> avl_keys l. x < k) \<and> (\<forall>x \<in> avl_keys r. k < x)"
  by (fastforce simp: avl_bst_def avl_keys_def sorted_wrt_append)

lemma avl_bst_inorder:
  assumes "avl_inorder n = avl_inorder l @ (k, v) # avl_inorder r"
  shows "avl_bst n \<longleftrightarrow>
     avl_bst l \<and> avl_bst r \<and> (\<forall>x \<in> avl_keys l. x < k) \<and> (\<forall>x \<in> avl_keys r. k < x)"
  using assms by (fastforce simp: avl_bst_def avl_keys_def sorted_wrt_append)

lemma avl_insert_bst:
  assumes "avl_inv n" "avl_bst n"
  shows "avl_bst (fst (avl_insert t n key val))"
  using assms
proof (induction n arbitrary: t)
  case AVLNull
  then show ?case by (simp add: avl_bst_def)
next
  case (AVLNode k v l r h)
  have il: "avl_inv l" and ir: "avl_inv r" using AVLNode.prems by auto
  have bl: "avl_bst l" and br: "avl_bst r"
    and lo: "\<forall>x \<in> avl_keys l. x < k" and hi: "\<forall>x \<in> avl_keys r. k < x"
    using AVLNode.prems(2) by (auto simp: avl_bst_node)
  let ?t0 = "t\<lparr>avl_n_comparisons := avl_n_comparisons t + 1\<rparr>"
  consider (eq) "key = k" | (lt) "key < k" | (gt) "k < key" by fastforce
  then show ?case
  proof cases
    case eq
    then show ?thesis using AVLNode.prems(2) by simp
  next
    case lt
    obtain l' t1 where ins: "avl_insert ?t0 l key val = (l', t1)" by fastforce
    have res: "avl_insert t (AVLNode k v l r h) key val = avl_fixup_node t1 (AVLNode k v l' r h) key"
      using lt ins by (auto simp del: avl_fixup_node.simps)
    have k': "avl_keys l' = insert key (avl_keys l)" using avl_insert_keys[OF il, of ?t0 key val] ins by simp
    have b': "avl_bst l'" using AVLNode.IH(1)[OF il bl, of ?t0] ins by simp
    have io: "avl_inorder (fst (avl_fixup_node t1 (AVLNode k v l' r h) key)) =
              avl_inorder l' @ (k, v) # avl_inorder r"
      using avl_insert_step_left[OF AVLNode.prems(1) ins] by simp
    show ?thesis unfolding res avl_bst_inorder[OF io] using b' br lo hi k' lt by auto
  next
    case gt
    obtain r' t1 where ins: "avl_insert ?t0 r key val = (r', t1)" by fastforce
    have res: "avl_insert t (AVLNode k v l r h) key val = avl_fixup_node t1 (AVLNode k v l r' h) key"
      using gt ins less_asym[OF gt] by (auto simp del: avl_fixup_node.simps)
    have k': "avl_keys r' = insert key (avl_keys r)" using avl_insert_keys[OF ir, of ?t0 key val] ins by simp
    have b': "avl_bst r'" using AVLNode.IH(2)[OF ir br, of ?t0] ins by simp
    have io: "avl_inorder (fst (avl_fixup_node t1 (AVLNode k v l r' h) key)) =
              avl_inorder l @ (k, v) # avl_inorder r'"
      using avl_insert_step_right[OF AVLNode.prems(1) ins] by simp
    show ?thesis unfolding res avl_bst_inorder[OF io] using bl b' lo hi k' gt by auto
  qed
qed

lemma avl_fixup_deletion_inorder:
  assumes "avl_inv l" "avl_inv r" "\<bar>avl_height_of l - avl_height_of r\<bar> \<le> 2"
  shows "avl_inorder (fst (avl_fixup_deletion t (AVLNode k v l r h))) =
         avl_inorder l @ (k, v) # avl_inorder r"
proof -
  consider (bal) "\<bar>avl_height_of l - avl_height_of r\<bar> \<le> 1"
    | (left) "avl_height_of l = avl_height_of r + 2"
    | (right) "avl_height_of r = avl_height_of l + 2"
    using assms(3) by linarith
  then show ?thesis
  proof cases
    case bal
    then show ?thesis using assms(1,2) by (auto simp: Let_def avl_new_height_def)
  next
    case left
    then obtain lk lv ll lr lh where L: "l = AVLNode lk lv ll lr lh"
      by (cases l) auto
    show ?thesis
    proof (cases "avl_height_of lr \<le> avl_height_of ll")
      case True
      then show ?thesis using assms(1,2) left L
        by (auto simp: Let_def avl_new_height_def)
    next
      case False
      then obtain mk mv ml mr mh where M: "lr = AVLNode mk mv ml mr mh"
        by (cases lr) auto
      show ?thesis using assms(1,2) left L M False
        by (auto simp: Let_def avl_new_height_def)
    qed
  next
    case right
    then obtain rk rv rl rr rh where R: "r = AVLNode rk rv rl rr rh"
      by (cases r) auto
    show ?thesis
    proof (cases "avl_height_of rl \<le> avl_height_of rr")
      case True
      then show ?thesis using assms(1,2) right R
        by (auto simp: Let_def avl_new_height_def)
    next
      case False
      then obtain mk mv ml mr mh where M: "rl = AVLNode mk mv ml mr mh"
        by (cases rl) auto
      show ?thesis using assms(1,2) right R M False
        by (auto simp: Let_def avl_new_height_def)
    qed
  qed
qed

lemma avl_remove_successor_inorder:
  assumes "avl_inv n" "n \<noteq> AVLNull"
  shows "avl_inorder n =
         fst (snd (avl_remove_successor t n)) # avl_inorder (fst (avl_remove_successor t n))"
  using assms
proof (induction n arbitrary: t)
  case AVLNull
  then show ?case by simp
next
  case (AVLNode k v l r h)
  have il: "avl_inv l" and ir: "avl_inv r" using AVLNode.prems by auto
  have bal: "\<bar>avl_height_of l - avl_height_of r\<bar> \<le> 1" using AVLNode.prems by auto
  show ?case
  proof (cases "l = AVLNull")
    case True
    then show ?thesis by simp
  next
    case False
    obtain l' kv t1 where rs: "avl_remove_successor t l = (l', kv, t1)"
      by (metis prod_cases3)
    have res: "fst (avl_remove_successor t (AVLNode k v l r h)) =
               fst (avl_fixup_deletion t1 (AVLNode k v l' r h))"
      and res2: "fst (snd (avl_remove_successor t (AVLNode k v l r h))) = kv"
      using False rs by (simp_all split: prod.splits del: avl_fixup_deletion.simps)
    from avl_remove_successor_inv[OF il False, of t] rs
    have il': "avl_inv l'"
      and hl': "avl_height_of l' = avl_height_of l \<or> avl_height_of l' = avl_height_of l - 1"
      by auto
    have b2: "\<bar>avl_height_of l' - avl_height_of r\<bar> \<le> 2" using hl' bal by linarith
    have "avl_inorder l = kv # avl_inorder l'" using AVLNode.IH(1)[OF il False, of t] rs by simp
    then show ?thesis unfolding res res2 avl_fixup_deletion_inorder[OF il' ir b2] by simp
  qed
qed

lemma avl_remove_inorder:
  assumes "avl_inv n" "avl_bst n"
  shows "avl_inorder (fst (avl_remove t n key)) = filter (\<lambda>p. fst p \<noteq> key) (avl_inorder n)"
  using assms
proof (induction n arbitrary: t)
  case AVLNull
  then show ?case by simp
next
  case (AVLNode k v l r h)
  have il: "avl_inv l" and ir: "avl_inv r" using AVLNode.prems by auto
  have bal: "\<bar>avl_height_of l - avl_height_of r\<bar> \<le> 1" using AVLNode.prems by auto
  have bl: "avl_bst l" and br: "avl_bst r"
    and lo: "\<forall>x \<in> avl_keys l. x < k" and hi: "\<forall>x \<in> avl_keys r. k < x"
    using AVLNode.prems(2) by (auto simp: avl_bst_node)
  have fl: "filter (\<lambda>p. fst p \<noteq> key) (avl_inorder l) = avl_inorder l" if "k \<le> key"
    using lo that by (auto simp: avl_keys_def intro!: filter_True)
  have fr: "filter (\<lambda>p. fst p \<noteq> key) (avl_inorder r) = avl_inorder r" if "key \<le> k"
    using hi that by (auto simp: avl_keys_def intro!: filter_True)
  let ?t0 = "t\<lparr>avl_n_comparisons := avl_n_comparisons t + 1\<rparr>"
  consider (lt) "key < k" | (gt) "k < key" | (eq) "key = k" by fastforce
  then show ?case
  proof cases
    case lt
    obtain l' t1 where rm: "avl_remove ?t0 l key = (l', t1)" by fastforce
    have res: "avl_remove t (AVLNode k v l r h) key = avl_fixup_deletion t1 (AVLNode k v l' r h)"
      using lt rm by (simp add: Let_def del: avl_fixup_deletion.simps)
    from avl_remove_inv[OF il, of ?t0 key] rm
    have il': "avl_inv l'"
      and hl': "avl_height_of l' = avl_height_of l \<or> avl_height_of l' = avl_height_of l - 1"
      by auto
    have b2: "\<bar>avl_height_of l' - avl_height_of r\<bar> \<le> 2" using hl' bal by linarith
    have "avl_inorder l' = filter (\<lambda>p. fst p \<noteq> key) (avl_inorder l)"
      using AVLNode.IH(1)[OF il bl, of ?t0] rm by simp
    then show ?thesis unfolding res avl_fixup_deletion_inorder[OF il' ir b2]
      using lt fr by auto
  next
    case gt
    obtain r' t1 where rm: "avl_remove ?t0 r key = (r', t1)" by fastforce
    have res: "avl_remove t (AVLNode k v l r h) key = avl_fixup_deletion t1 (AVLNode k v l r' h)"
      using gt rm less_asym[OF gt] by (auto simp: Let_def simp del: avl_fixup_deletion.simps)
    from avl_remove_inv[OF ir, of ?t0 key] rm
    have ir': "avl_inv r'"
      and hr': "avl_height_of r' = avl_height_of r \<or> avl_height_of r' = avl_height_of r - 1"
      by auto
    have b2: "\<bar>avl_height_of l - avl_height_of r'\<bar> \<le> 2" using hr' bal by linarith
    have "avl_inorder r' = filter (\<lambda>p. fst p \<noteq> key) (avl_inorder r)"
      using AVLNode.IH(2)[OF ir br, of ?t0] rm by simp
    then show ?thesis unfolding res avl_fixup_deletion_inorder[OF il ir' b2]
      using gt fl by auto
  next
    case eq
    show ?thesis
    proof (cases "r = AVLNull")
      case True
      then show ?thesis using eq fl by (auto simp: Let_def)
    next
      case False
      obtain r' sk sv t1 where rs: "avl_remove_successor ?t0 r = (r', (sk, sv), t1)"
        by (metis prod_cases3 surj_pair)
      have res: "avl_remove t (AVLNode k v l r h) key =
                 avl_fixup_deletion (t1\<lparr>avl_size := dec_size_t (avl_size t1)\<rparr>) (AVLNode sk sv l r' h)"
        using eq False rs by (simp add: Let_def del: avl_fixup_deletion.simps)
      from avl_remove_successor_inv[OF ir False, of ?t0] rs
      have ir': "avl_inv r'"
        and hr': "avl_height_of r' = avl_height_of r \<or> avl_height_of r' = avl_height_of r - 1"
        by auto
      have b2: "\<bar>avl_height_of l - avl_height_of r'\<bar> \<le> 2" using hr' bal by linarith
      have "avl_inorder r = (sk, sv) # avl_inorder r'"
        using avl_remove_successor_inorder[OF ir False, of ?t0] rs by simp
      then show ?thesis unfolding res avl_fixup_deletion_inorder[OF il ir' b2]
        using eq fl fr by auto
    qed
  qed
qed

lemma sorted_fst_filter:
  "sorted_wrt (<) (map fst xs) \<Longrightarrow> sorted_wrt (<) (map fst (filter P xs))"
  by (induction xs) auto

lemma avl_remove_bst:
  assumes "avl_inv n" "avl_bst n"
  shows "avl_bst (fst (avl_remove t n key))"
  using assms(2) unfolding avl_bst_def avl_remove_inorder[OF assms]
  by (rule sorted_fst_filter)

text \<open>Every tree a client can build is height-balanced and ordered.\<close>

lemma avl_run_invariants:
  "avl_inv (avl_root (AVLTree_run ops)) \<and> avl_bst (avl_root (AVLTree_run ops))"
proof (induction ops rule: rev_induct)
  case Nil
  then show ?case by (simp add: AVLTree_run_def AVLTree_new_def avl_bst_def)
next
  case (snoc x xs)
  let ?t = "AVLTree_run xs"
  have step: "AVLTree_run (xs @ [x]) = AVLTree_apply ?t x"
    by (simp add: AVLTree_run_def)
  from snoc.IH have i: "avl_inv (avl_root ?t)" and b: "avl_bst (avl_root ?t)" by auto
  show ?case
  proof (cases x)
    case (AVL_Insert k v)
    then show ?thesis unfolding step
      using avl_insert_inv[OF i, of ?t k v] avl_insert_bst[OF i b, of ?t k v]
      by (auto simp: AVLTree_insert_def split: prod.splits)
  next
    case (AVL_Erase k)
    then show ?thesis unfolding step
      using avl_remove_inv[OF i, of ?t k] avl_remove_bst[OF i b, of ?t k]
      by (auto simp: AVLTree_erase_def split: prod.splits)
  qed
qed

text \<open>
  The iterator keeps the current node and a stack of the ancestors still to visit
  (the head of the list is the top of the stack).
\<close>

record ('k, 'v) AVLTreeIterator =
  avl_it_current :: "('k, 'v) AVLNode"
  avl_it_traversal_stack :: "('k, 'v) AVLNode list"

fun avl_push_left :: "('k, 'v) AVLNode list \<Rightarrow> ('k, 'v) AVLNode \<Rightarrow> ('k, 'v) AVLNode list" where
  "avl_push_left st AVLNull = st"
| "avl_push_left st (AVLNode k v l r h) = avl_push_left (AVLNode k v l r h # st) l"

text \<open>The step both the constructor and \<open>operator++\<close> end with: pop the top of the stack
  into \<open>current\<close>, or set \<open>current\<close> to \<open>nullptr\<close> when the stack is empty.\<close>

fun avl_it_pop :: "('k, 'v) AVLNode list \<Rightarrow> ('k, 'v) AVLTreeIterator" where
  "avl_it_pop [] = \<lparr>avl_it_current = AVLNull, avl_it_traversal_stack = []\<rparr>"
| "avl_it_pop (nd # st) = \<lparr>avl_it_current = nd, avl_it_traversal_stack = st\<rparr>"

definition AVLTreeIterator_new :: "('k, 'v) AVLNode \<Rightarrow> ('k, 'v) AVLTreeIterator" where
  "AVLTreeIterator_new rt = avl_it_pop (avl_push_left [] rt)"




definition AVLTree_end :: "('k, 'v) AVLTree \<Rightarrow> ('k, 'v) AVLTreeIterator" where
  "AVLTree_end t = AVLTreeIterator_new AVLNull"

















lemma avl_findNode_fst_indep:
  "fst (avl_findNode t n k) = fst (avl_findNode t' n k)"
proof (induction n arbitrary: t t')
  case AVLNull
  then show ?case by simp
next
  case (AVLNode ck cv cl cr ch)
  show ?case
  proof (cases "ck = k")
    case True
    then show ?thesis by simp
  next
    case False
    show ?thesis
    proof (cases "ck < k")
      case True
      then show ?thesis using False AVLNode.IH(2) by simp
    next
      case nl: False
      then show ?thesis using False AVLNode.IH(1) by simp
    qed
  qed
qed



lemma avl_insert_present:
  assumes "avl_inv n" "fst (avl_findNode t' n key) \<noteq> AVLNull"
  shows "fst (avl_insert t n key val) = n \<and>
         avl_size (snd (avl_insert t n key val)) = avl_size t"
  using assms
proof (induction n arbitrary: t t')
  case AVLNull
  then show ?case by simp
next
  case (AVLNode k v l r h)
  have il: "avl_inv l" and ir: "avl_inv r" using AVLNode.prems by auto
  have hh: "int h = 1 + max (avl_height_of l) (avl_height_of r)"
    and bal: "\<bar>avl_height_of l - avl_height_of r\<bar> \<le> 1" using AVLNode.prems by auto
  have nh: "avl_new_height l r = h" using hh by (simp add: avl_new_height_def)
  let ?t0 = "t\<lparr>avl_n_comparisons := avl_n_comparisons t + 1\<rparr>"
  let ?t0' = "t'\<lparr>avl_n_comparisons := avl_n_comparisons t' + 3\<rparr>"
  consider (eq) "key = k" | (lt) "key < k" | (gt) "k < key" by fastforce
  then show ?case
  proof cases
    case eq
    then show ?thesis by simp
  next
    case lt
    then have f: "fst (avl_findNode ?t0' l key) \<noteq> AVLNull"
      using AVLNode.prems(2) less_asym[OF lt] by (auto split: if_splits)
    obtain l' t1 where ins: "avl_insert ?t0 l key val = (l', t1)" by fastforce
    have res: "avl_insert t (AVLNode k v l r h) key val = avl_fixup_node t1 (AVLNode k v l' r h) key"
      using lt ins by (auto simp del: avl_fixup_node.simps)
    have l': "l' = l" and s: "avl_size t1 = avl_size t"
      using AVLNode.IH(1)[OF il f, of ?t0] ins by simp_all
    show ?thesis unfolding res l'
      using avl_fixup_node_balanced[OF bal, of t1 k v h key]
        avl_fixup_node_balanced_snd[OF bal, of t1 k v h key] nh s by simp
  next
    case gt
    then have f: "fst (avl_findNode ?t0' r key) \<noteq> AVLNull"
      using AVLNode.prems(2) by (auto split: if_splits)
    obtain r' t1 where ins: "avl_insert ?t0 r key val = (r', t1)" by fastforce
    have res: "avl_insert t (AVLNode k v l r h) key val = avl_fixup_node t1 (AVLNode k v l r' h) key"
      using gt ins less_asym[OF gt] by (auto simp del: avl_fixup_node.simps)
    have r': "r' = r" and s: "avl_size t1 = avl_size t"
      using AVLNode.IH(2)[OF ir f, of ?t0] ins by simp_all
    show ?thesis unfolding res r'
      using avl_fixup_node_balanced[OF bal, of t1 k v h key]
        avl_fixup_node_balanced_snd[OF bal, of t1 k v h key] nh s by simp
  qed
qed

lemma AVLTree_at_fst:
  "fst (AVLTree_at t k) =
     (if fst (avl_findNode t (avl_root t) k) = AVLNull then Throws AVL_ValueNotFoundException
      else Returns (avl_val (fst (avl_findNode t (avl_root t) k))))"
  by (simp add: AVLTree_at_def case_prod_beta)

lemma AVLTree_contains_fst:
  "fst (AVLTree_contains t k) = (fst (avl_findNode t (avl_root t) k) \<noteq> AVLNull)"
  by (simp add: AVLTree_contains_def case_prod_beta)

lemma AVLTree_insert_present:
  assumes "fst (AVLTree_contains (AVLTree_run ops) k)"
  shows "AVLTree_size (AVLTree_insert (AVLTree_run ops) k v) = AVLTree_size (AVLTree_run ops) \<and>
         avl_root (AVLTree_insert (AVLTree_run ops) k v) = avl_root (AVLTree_run ops) \<and>
         fst (AVLTree_at (AVLTree_insert (AVLTree_run ops) k v) k) =
         fst (AVLTree_at (AVLTree_run ops) k)"
proof -
  let ?t = "AVLTree_run ops"
  have i: "avl_inv (avl_root ?t)" using avl_run_invariants[of ops] by simp
  have f: "fst (avl_findNode ?t (avl_root ?t) k) \<noteq> AVLNull"
    using assms by (simp add: AVLTree_contains_fst)
  note p = avl_insert_present[OF i f, of ?t v]
  have r: "avl_root (AVLTree_insert ?t k v) = avl_root ?t"
    using p by (auto simp: AVLTree_insert_def split: prod.splits)
  have s: "AVLTree_size (AVLTree_insert ?t k v) = AVLTree_size ?t"
    using p by (auto simp: AVLTree_insert_def AVLTree_size_def split: prod.splits)
  have "fst (avl_findNode (AVLTree_insert ?t k v) (avl_root ?t) k) =
        fst (avl_findNode ?t (avl_root ?t) k)"
    by (rule avl_findNode_fst_indep)
  then have a: "fst (AVLTree_at (AVLTree_insert ?t k v) k) = fst (AVLTree_at ?t k)"
    by (simp add: AVLTree_at_fst r)
  show ?thesis using r s a by simp
qed

text \<open>
  Claim C7.  After any sequence of \<open>insert\<close> and \<open>erase\<close> calls on an initially empty AVL tree,
  every node satisfies the AVL invariant: its stored height is one more than the larger of
  its children's heights (0 for an absent child), and the children's heights differ by at
  most one.
\<close>

theorem avl_invariant_after_any_operations:
  "avl_inv (avl_root (AVLTree_run ops))"
  using avl_run_invariants[of ops] by simp

text \<open>C7 at the insertions of the specification's scenario, followed by two erasures.\<close>

theorem avl_invariant_after_any_operations_witness:
  "avl_inv (avl_root (AVLTree_run
      [AVL_Insert (10::nat) (), AVL_Insert 20 (), AVL_Insert 30 (), AVL_Insert 40 (),
       AVL_Insert 50 (), AVL_Insert 25 (), AVL_Erase 30, AVL_Erase 10])) \<and>
   avl_root (AVLTree_run
      [AVL_Insert (10::nat) (), AVL_Insert 20 (), AVL_Insert 30 (), AVL_Insert 40 (),
       AVL_Insert 50 (), AVL_Insert 25 ()]) =
     AVLNode 30 ()
       (AVLNode 20 () (AVLNode 10 () AVLNull AVLNull 1) (AVLNode 25 () AVLNull AVLNull 1) 2)
       (AVLNode 40 () AVLNull (AVLNode 50 () AVLNull AVLNull 1) 2) 3"
proof -
  have "avl_root (AVLTree_run
      [AVL_Insert (10::nat) (), AVL_Insert 20 (), AVL_Insert 30 (), AVL_Insert 40 (),
       AVL_Insert 50 (), AVL_Insert 25 ()]) =
     AVLNode 30 ()
       (AVLNode 20 () (AVLNode 10 () AVLNull AVLNull 1) (AVLNode 25 () AVLNull AVLNull 1) 2)
       (AVLNode 40 () AVLNull (AVLNode 50 () AVLNull AVLNull 1) 2) 3"
    by code_simp
  then show ?thesis
    using avl_invariant_after_any_operations[of
      "[AVL_Insert (10::nat) (), AVL_Insert 20 (), AVL_Insert 30 (), AVL_Insert 40 (),
        AVL_Insert 50 (), AVL_Insert 25 (), AVL_Erase 30, AVL_Erase 10]"]
    by simp
qed


section \<open>Red-black tree (RBNode.hpp, RBTree.hpp, RBTreeIterator.hpp)\<close>

text \<open>
  The nodes of the red-black tree point at each other in both directions and share one
  sentinel, so the tree is modelled on an explicit store: a node pointer is an address, the
  store maps addresses to the fields of \<open>struct RBNode\<close>, and every assignment through a
  pointer is an update of the store.  \<open>new\<close> takes the next unused address; \<open>delete\<close> records
  the address as released.  Loops over pointers are partial functions: a loop that never
  leaves has the value \<open>None\<close>.  The colours are those of RBNode.hpp: \<open>RED = false\<close>,
  \<open>BLACK = true\<close>.
\<close>

abbreviation RED :: bool where "RED \<equiv> False"
abbreviation BLACK :: bool where "BLACK \<equiv> True"

record ('k, 'v) RBNode =
  rb_key :: 'k
  rb_val :: 'v
  rb_parent :: nat
  rb_left :: nat
  rb_right :: nat
  rb_color :: bool

record ('k, 'v) RBTree =
  rb_store :: "nat \<Rightarrow> ('k, 'v) RBNode"
  rb_next :: nat
  rb_released :: "nat list"
  rb_root :: nat
  rb_NIL :: nat
  m_size :: nat
  rb_n_comparisons :: nat
  rb_n_rotations :: nat

text \<open>Reading and writing the fields of the node at an address.\<close>

abbreviation key_of :: "('k, 'v) RBTree \<Rightarrow> nat \<Rightarrow> 'k" where
  "key_of t a \<equiv> rb_key (rb_store t a)"
abbreviation val_of :: "('k, 'v) RBTree \<Rightarrow> nat \<Rightarrow> 'v" where
  "val_of t a \<equiv> rb_val (rb_store t a)"
abbreviation parent_of :: "('k, 'v) RBTree \<Rightarrow> nat \<Rightarrow> nat" where
  "parent_of t a \<equiv> rb_parent (rb_store t a)"
abbreviation left_of :: "('k, 'v) RBTree \<Rightarrow> nat \<Rightarrow> nat" where
  "left_of t a \<equiv> rb_left (rb_store t a)"
abbreviation right_of :: "('k, 'v) RBTree \<Rightarrow> nat \<Rightarrow> nat" where
  "right_of t a \<equiv> rb_right (rb_store t a)"
abbreviation color_of :: "('k, 'v) RBTree \<Rightarrow> nat \<Rightarrow> bool" where
  "color_of t a \<equiv> rb_color (rb_store t a)"

definition set_key :: "('k, 'v) RBTree \<Rightarrow> nat \<Rightarrow> 'k \<Rightarrow> ('k, 'v) RBTree" where
  "set_key t a x = t\<lparr>rb_store := (rb_store t)(a := (rb_store t a)\<lparr>rb_key := x\<rparr>)\<rparr>"
definition set_val :: "('k, 'v) RBTree \<Rightarrow> nat \<Rightarrow> 'v \<Rightarrow> ('k, 'v) RBTree" where
  "set_val t a x = t\<lparr>rb_store := (rb_store t)(a := (rb_store t a)\<lparr>rb_val := x\<rparr>)\<rparr>"
definition set_parent :: "('k, 'v) RBTree \<Rightarrow> nat \<Rightarrow> nat \<Rightarrow> ('k, 'v) RBTree" where
  "set_parent t a x = t\<lparr>rb_store := (rb_store t)(a := (rb_store t a)\<lparr>rb_parent := x\<rparr>)\<rparr>"
definition set_left :: "('k, 'v) RBTree \<Rightarrow> nat \<Rightarrow> nat \<Rightarrow> ('k, 'v) RBTree" where
  "set_left t a x = t\<lparr>rb_store := (rb_store t)(a := (rb_store t a)\<lparr>rb_left := x\<rparr>)\<rparr>"
definition set_right :: "('k, 'v) RBTree \<Rightarrow> nat \<Rightarrow> nat \<Rightarrow> ('k, 'v) RBTree" where
  "set_right t a x = t\<lparr>rb_store := (rb_store t)(a := (rb_store t a)\<lparr>rb_right := x\<rparr>)\<rparr>"
definition set_color :: "('k, 'v) RBTree \<Rightarrow> nat \<Rightarrow> bool \<Rightarrow> ('k, 'v) RBTree" where
  "set_color t a x = t\<lparr>rb_store := (rb_store t)(a := (rb_store t a)\<lparr>rb_color := x\<rparr>)\<rparr>"

definition count_comparisons :: "nat \<Rightarrow> ('k, 'v) RBTree \<Rightarrow> ('k, 'v) RBTree" where
  "count_comparisons n t = t\<lparr>rb_n_comparisons := rb_n_comparisons t + n\<rparr>"
definition count_rotation :: "('k, 'v) RBTree \<Rightarrow> ('k, 'v) RBTree" where
  "count_rotation t = t\<lparr>rb_n_rotations := rb_n_rotations t + 1\<rparr>"

text \<open>\<open>new RBNode(key, value, parent, left, right, color)\<close>: the address and the tree after it.\<close>

definition new_RBNode ::
  "('k, 'v) RBTree \<Rightarrow> 'k \<Rightarrow> 'v \<Rightarrow> nat \<Rightarrow> nat \<Rightarrow> nat \<Rightarrow> bool \<Rightarrow> nat \<times> ('k, 'v) RBTree" where
  "new_RBNode t k v p l r c =
     (rb_next t,
      t\<lparr>rb_store := (rb_store t)(rb_next t :=
            \<lparr>rb_key = k, rb_val = v, rb_parent = p, rb_left = l, rb_right = r, rb_color = c\<rparr>),
        rb_next := rb_next t + 1\<rparr>)"

definition delete_RBNode :: "('k, 'v) RBTree \<Rightarrow> nat \<Rightarrow> ('k, 'v) RBTree" where
  "delete_RBNode t a = t\<lparr>rb_released := a # rb_released t\<rparr>"

partial_function (option) rb_delete_subtree ::
  "('k, 'v) RBTree \<Rightarrow> nat \<Rightarrow> ('k, 'v) RBTree option" where
  "rb_delete_subtree t node =
     (if node = rb_NIL t then Some t
      else Option.bind (rb_delete_subtree t (left_of t node)) (\<lambda>t1.
           Option.bind (rb_delete_subtree t1 (right_of t1 node)) (\<lambda>t2.
           Some (delete_RBNode t2 node))))"

declare rb_delete_subtree.simps [code]

partial_function (option) rb_minimum ::
  "('k, 'v) RBTree \<Rightarrow> nat \<Rightarrow> (nat \<times> ('k, 'v) RBTree) option" where
  "rb_minimum t x =
     (if left_of t x \<noteq> rb_NIL t
      then rb_minimum (count_comparisons 1 t) (left_of t x)
      else Some (x, t))"

declare rb_minimum.simps [code]

partial_function (option) rb_maximum ::
  "('k, 'v) RBTree \<Rightarrow> nat \<Rightarrow> (nat \<times> ('k, 'v) RBTree) option" where
  "rb_maximum t x =
     (if right_of t x \<noteq> rb_NIL t
      then rb_maximum (count_comparisons 1 t) (right_of t x)
      else Some (x, t))"

declare rb_maximum.simps [code]

text \<open>The loop of \<open>_search\<close>, from the pointer \<open>p\<close>.\<close>

partial_function (option) rb_search_from ::
  "('k::linorder, 'v) RBTree \<Rightarrow> 'k \<Rightarrow> nat \<Rightarrow> (nat \<times> ('k, 'v) RBTree) option" where
  "rb_search_from t key p =
     (if p \<noteq> rb_NIL t \<and> key_of t p \<noteq> key
      then rb_search_from (count_comparisons 3 t) key
             (if key < key_of t p then left_of t p else right_of t p)
      else Some (p, t))"

declare rb_search_from.simps [code]

definition rb_search ::
  "('k::linorder, 'v) RBTree \<Rightarrow> 'k \<Rightarrow> (nat \<times> ('k, 'v) RBTree) option" where
  "rb_search t key = rb_search_from t key (rb_root t)"

definition rb_leftRotate :: "('k, 'v) RBTree \<Rightarrow> nat \<Rightarrow> ('k, 'v) RBTree" where
  "rb_leftRotate t x =
     (let y = right_of t x;
          t1 = set_right t x (left_of t y);
          t2 = (if left_of t1 y \<noteq> rb_NIL t1 then set_parent t1 (left_of t1 y) x else t1);
          t3 = set_parent t2 y (parent_of t2 x);
          t4 = (if parent_of t3 x = rb_NIL t3 then t3\<lparr>rb_root := y\<rparr>
                else if x = left_of t3 (parent_of t3 x) then set_left t3 (parent_of t3 x) y
                else set_right t3 (parent_of t3 x) y);
          t5 = set_left t4 y x
      in set_parent t5 x y)"

definition rb_rightRotate :: "('k, 'v) RBTree \<Rightarrow> nat \<Rightarrow> ('k, 'v) RBTree" where
  "rb_rightRotate t x =
     (let y = left_of t x;
          t1 = set_left t x (right_of t y);
          t2 = (if right_of t1 y \<noteq> rb_NIL t1 then set_parent t1 (right_of t1 y) x else t1);
          t3 = set_parent t2 y (parent_of t2 x);
          t4 = (if parent_of t3 x = rb_NIL t3 then t3\<lparr>rb_root := y\<rparr>
                else if x = right_of t3 (parent_of t3 x) then set_right t3 (parent_of t3 x) y
                else set_left t3 (parent_of t3 x) y);
          t5 = set_right t4 y x
      in set_parent t5 x y)"

text \<open>One pass through the body of the \<open>while\<close> loop of \<open>_insert_fixup\<close>: the tree and the
  pointer \<open>z\<close> after it.\<close>

definition rb_insert_fixup_body :: "('k, 'v) RBTree \<Rightarrow> nat \<Rightarrow> ('k, 'v) RBTree \<times> nat" where
  "rb_insert_fixup_body t z =
     (if parent_of t z = left_of t (parent_of t (parent_of t z)) then
        (let t = count_comparisons 1 t;
             y = right_of t (parent_of t (parent_of t z))
         in if color_of t y = RED then
              (let t = set_color t (parent_of t z) BLACK;
                   t = set_color t y BLACK;
                   t = set_color t (parent_of t (parent_of t z)) RED
               in (t, parent_of t (parent_of t z)))
            else
              (let (t, z) =
                     (if z = right_of t (parent_of t z)
                      then (let t = count_comparisons 1 t;
                                z = parent_of t z;
                                t = rb_leftRotate t z
                            in (count_rotation t, z))
                      else (t, z));
                   t = set_color t (parent_of t z) BLACK;
                   t = set_color t (parent_of t (parent_of t z)) RED;
                   t = rb_rightRotate t (parent_of t (parent_of t z))
               in (count_rotation t, z)))
      else
        (let y = left_of t (parent_of t (parent_of t z))
         in if color_of t y = RED then
              (let t = set_color t (parent_of t z) BLACK;
                   t = set_color t y BLACK;
                   t = set_color t (parent_of t (parent_of t z)) RED
               in (t, parent_of t (parent_of t z)))
            else
              (let (t, z) =
                     (if z = left_of t (parent_of t z)
                      then (let t = count_comparisons 1 t;
                                z = parent_of t z;
                                t = rb_rightRotate t z
                            in (count_rotation t, z))
                      else (t, z));
                   t = set_color t (parent_of t z) BLACK;
                   t = set_color t (parent_of t (parent_of t z)) RED;
                   t = rb_leftRotate t (parent_of t (parent_of t z))
               in (count_rotation t, z))))"

partial_function (option) rb_insert_fixup_loop ::
  "('k, 'v) RBTree \<Rightarrow> nat \<Rightarrow> ('k, 'v) RBTree option" where
  "rb_insert_fixup_loop t z =
     (if color_of t (parent_of t z) = RED
      then (case rb_insert_fixup_body t z of (t', z') \<Rightarrow> rb_insert_fixup_loop t' z')
      else Some t)"

declare rb_insert_fixup_loop.simps [code]

definition rb_insert_fixup :: "('k, 'v) RBTree \<Rightarrow> nat \<Rightarrow> ('k, 'v) RBTree option" where
  "rb_insert_fixup t z =
     map_option (\<lambda>t. set_color t (rb_root t) BLACK) (rb_insert_fixup_loop t z)"

text \<open>One pass through the body of the \<open>while\<close> loop of \<open>_remove_fixup\<close>.\<close>

definition rb_remove_fixup_body :: "('k, 'v) RBTree \<Rightarrow> nat \<Rightarrow> ('k, 'v) RBTree \<times> nat" where
  "rb_remove_fixup_body t x =
     (let t = count_comparisons 1 t
      in if x = left_of t (parent_of t x) then
           (let t = count_comparisons 1 t;
                w = right_of t (parent_of t x);
                (t, w) =
                  (if color_of t w = RED
                   then (let t = set_color t w BLACK;
                             t = set_color t (parent_of t x) RED;
                             t = rb_leftRotate t (parent_of t x);
                             w = right_of t (parent_of t x)
                         in (count_rotation t, w))
                   else (t, w))
            in if color_of t (left_of t w) = BLACK \<and> color_of t (right_of t w) = BLACK then
                 (let t = set_color t w RED in (t, parent_of t x))
               else
                 (let (t, w) =
                        (if color_of t (right_of t w) = BLACK
                         then (let t = set_color t (left_of t w) BLACK;
                                   t = set_color t w RED;
                                   t = rb_rightRotate t w;
                                   w = right_of t (parent_of t x)
                               in (count_rotation t, w))
                         else (t, w));
                      t = set_color t w (color_of t (parent_of t x));
                      t = set_color t (parent_of t x) BLACK;
                      t = set_color t (right_of t w) BLACK;
                      t = rb_leftRotate t (parent_of t x);
                      t = count_rotation t
                  in (t, rb_root t)))
         else
           (let w = left_of t (parent_of t x);
                (t, w) =
                  (if color_of t w = RED
                   then (let t = set_color t w BLACK;
                             t = set_color t (parent_of t x) RED;
                             t = rb_rightRotate t (parent_of t x);
                             w = left_of t (parent_of t x)
                         in (count_rotation t, w))
                   else (t, w))
            in if color_of t (right_of t w) = BLACK \<and> color_of t (left_of t w) = BLACK then
                 (let t = set_color t w RED in (t, parent_of t x))
               else
                 (let (t, w) =
                        (if color_of t (left_of t w) = BLACK
                         then (let t = set_color t (right_of t w) BLACK;
                                   t = set_color t w RED;
                                   t = rb_leftRotate t w;
                                   w = left_of t (parent_of t x)
                               in (count_rotation t, w))
                         else (t, w));
                      t = set_color t w (color_of t (parent_of t x));
                      t = set_color t (parent_of t x) BLACK;
                      t = set_color t (left_of t w) BLACK;
                      t = rb_rightRotate t (parent_of t x);
                      t = count_rotation t
                  in (t, rb_root t))))"

partial_function (option) rb_remove_fixup_loop ::
  "('k, 'v) RBTree \<Rightarrow> nat \<Rightarrow> (('k, 'v) RBTree \<times> nat) option" where
  "rb_remove_fixup_loop t x =
     (if x \<noteq> rb_root t \<and> color_of t x = BLACK
      then (case rb_remove_fixup_body t x of (t', x') \<Rightarrow> rb_remove_fixup_loop t' x')
      else Some (t, x))"

declare rb_remove_fixup_loop.simps [code]

definition rb_remove_fixup :: "('k, 'v) RBTree \<Rightarrow> nat \<Rightarrow> ('k, 'v) RBTree option" where
  "rb_remove_fixup t x =
     map_option (\<lambda>(t, x). set_color t x BLACK) (rb_remove_fixup_loop t x)"

definition RBTree_new :: "'k \<Rightarrow> 'v \<Rightarrow> ('k, 'v) RBTree" where
  "RBTree_new default_key default_value =
     \<lparr>rb_store = (\<lambda>a. \<lparr>rb_key = default_key, rb_val = default_value, rb_parent = 0,
                         rb_left = 0, rb_right = 0, rb_color = BLACK\<rparr>),
      rb_next = 1, rb_released = [], rb_root = 0, rb_NIL = 0,
      m_size = 0, rb_n_comparisons = 0, rb_n_rotations = 0\<rparr>"

definition RBTree_clear :: "('k, 'v) RBTree \<Rightarrow> ('k, 'v) RBTree option" where
  "RBTree_clear t =
     map_option (\<lambda>t. t\<lparr>rb_root := rb_NIL t\<rparr>) (rb_delete_subtree t (rb_root t))"

text \<open>The descent of \<open>insert\<close>: the parent found for the new node, or the exception.\<close>

partial_function (option) rb_insert_descend ::
  "('k::linorder, 'v) RBTree \<Rightarrow> 'k \<Rightarrow> nat \<Rightarrow> nat \<Rightarrow> (nat outcome \<times> ('k, 'v) RBTree) option" where
  "rb_insert_descend t key c p =
     (if c \<noteq> rb_NIL t then
        (if key = key_of t c then Some (Throws RB_AlreadyExistsException, t)
         else if key < key_of t c
         then rb_insert_descend (count_comparisons 2 (count_comparisons 1 t)) key (left_of t c) c
         else rb_insert_descend (count_comparisons 2 t) key (right_of t c) c)
      else Some (Returns p, t))"

declare rb_insert_descend.simps [code]

definition RBTree_insert ::
  "('k::linorder, 'v) RBTree \<Rightarrow> 'k \<Rightarrow> 'v \<Rightarrow> (unit outcome \<times> ('k, 'v) RBTree) option" where
  "RBTree_insert t key val =
     Option.bind (rb_insert_descend t key (rb_root t) (rb_NIL t)) (\<lambda>(found, t).
       case found of
         Throws e \<Rightarrow> Some (Throws e, t)
       | Returns p \<Rightarrow>
           (case new_RBNode t key val p (rb_NIL t) (rb_NIL t) RED of (n, t) \<Rightarrow>
              (let t = (if p = rb_NIL t then t\<lparr>rb_root := n\<rparr>
                        else if key < key_of t p then set_left (count_comparisons 1 t) p n
                        else set_right t p n);
                   t = count_comparisons 1 t
               in map_option (\<lambda>t. (Returns (), t\<lparr>m_size := m_size t + 1\<rparr>))
                    (rb_insert_fixup t n))))"

text \<open>
  Modelled from the spec: \<open>_remove(NodePtr z)\<close>, which \<open>remove\<close> calls and RBTree.hpp does
  not define.  Section 4.2: if \<open>z\<close> has at most one non-sentinel child it is spliced out
  directly, otherwise its successor (the minimum of its right subtree) is spliced out and
  the successor's key and value are copied into \<open>z\<close>; the colour of the spliced-out node is
  remembered, and if it was BLACK the delete-fixup runs on the node that took its place.
  Splicing links the replacing child to the parent of the spliced-out node in both
  directions, the sentinel included, as the fixup reads \<open>x->parent\<close>.
\<close>

definition rb_remove_node :: "('k, 'v) RBTree \<Rightarrow> nat \<Rightarrow> ('k, 'v) RBTree option" where
  "rb_remove_node t z =
     Option.bind
       (if left_of t z = rb_NIL t \<or> right_of t z = rb_NIL t then Some (z, t)
        else rb_minimum t (right_of t z)) (\<lambda>(y, t).
       (let x = (if left_of t y = rb_NIL t then right_of t y else left_of t y);
            t = set_parent t x (parent_of t y);
            t = (if parent_of t y = rb_NIL t then t\<lparr>rb_root := x\<rparr>
                 else if y = left_of t (parent_of t y) then set_left t (parent_of t y) x
                 else set_right t (parent_of t y) x);
            t = (if y \<noteq> z then set_val (set_key t z (key_of t y)) z (val_of t y) else t);
            original_color = color_of t y
        in map_option (\<lambda>t. delete_RBNode t y)
             (if original_color = BLACK then rb_remove_fixup t x else Some t)))"

definition RBTree_remove ::
  "('k::linorder, 'v) RBTree \<Rightarrow> 'k \<Rightarrow> (unit outcome \<times> ('k, 'v) RBTree) option" where
  "RBTree_remove t key =
     Option.bind (rb_search_from t key (rb_root t)) (\<lambda>(z, t).
       Option.bind
         (if z \<noteq> rb_NIL t
          then map_option (\<lambda>t. t\<lparr>m_size := dec_size_t (m_size t)\<rparr>) (rb_remove_node t z)
          else Some t) (\<lambda>t.
       Some (Returns (), count_comparisons 1 t)))"


definition RBTree_contains ::
  "('k::linorder, 'v) RBTree \<Rightarrow> 'k \<Rightarrow> (bool \<times> ('k, 'v) RBTree) option" where
  "RBTree_contains t key = map_option (\<lambda>(node, t). (node \<noteq> rb_NIL t, t)) (rb_search t key)"

definition RBTree_size :: "('k, 'v) RBTree \<Rightarrow> nat" where
  "RBTree_size t = m_size t"


subsection \<open>Iteration (RBTreeIterator.hpp)\<close>

record RBTreeIterator =
  rbit_current :: nat
  rbit_nil :: nat

text \<open>The iterator's own \<open>_minimum\<close>, which counts nothing.\<close>

partial_function (option) rb_it_minimum :: "('k, 'v) RBTree \<Rightarrow> nat \<Rightarrow> nat \<Rightarrow> nat option" where
  "rb_it_minimum t nil x =
     (if left_of t x \<noteq> nil then rb_it_minimum t nil (left_of t x) else Some x)"

declare rb_it_minimum.simps [code]

definition RBTreeIterator_new ::
  "('k, 'v) RBTree \<Rightarrow> nat \<Rightarrow> nat \<Rightarrow> RBTreeIterator option" where
  "RBTreeIterator_new t rt nil =
     (if rt \<noteq> nil
      then map_option (\<lambda>m. \<lparr>rbit_current = m, rbit_nil = nil\<rparr>) (rb_it_minimum t nil rt)
      else Some \<lparr>rbit_current = nil, rbit_nil = nil\<rparr>)"

definition rb_it_deref :: "('k, 'v) RBTree \<Rightarrow> RBTreeIterator \<Rightarrow> 'k \<times> 'v" where
  "rb_it_deref t it = (key_of t (rbit_current it), val_of t (rbit_current it))"

text \<open>The \<open>while\<close> loop of \<open>operator++\<close>: the pointer \<open>p\<close> it leaves with.\<close>

partial_function (option) rb_it_climb ::
  "('k, 'v) RBTree \<Rightarrow> nat \<Rightarrow> nat \<Rightarrow> nat \<Rightarrow> nat option" where
  "rb_it_climb t nil current p =
     (if p \<noteq> nil \<and> current = right_of t p
      then rb_it_climb t nil p (parent_of t p)
      else Some p)"

declare rb_it_climb.simps [code]

definition rb_it_incr ::
  "('k, 'v) RBTree \<Rightarrow> RBTreeIterator \<Rightarrow> RBTreeIterator outcome option" where
  "rb_it_incr t it =
     (if rbit_current it = rbit_nil it then Some (Throws Std_out_of_range)
      else if right_of t (rbit_current it) \<noteq> rbit_nil it
      then map_option (\<lambda>m. Returns (it\<lparr>rbit_current := m\<rparr>))
             (rb_it_minimum t (rbit_nil it) (right_of t (rbit_current it)))
      else map_option (\<lambda>p. Returns (it\<lparr>rbit_current := p\<rparr>))
             (rb_it_climb t (rbit_nil it) (rbit_current it) (parent_of t (rbit_current it))))"

definition RBTree_begin :: "('k, 'v) RBTree \<Rightarrow> RBTreeIterator option" where
  "RBTree_begin t = RBTreeIterator_new t (rb_root t) (rb_NIL t)"

definition RBTree_end :: "('k, 'v) RBTree \<Rightarrow> RBTreeIterator option" where
  "RBTree_end t = RBTreeIterator_new t (rb_NIL t) (rb_NIL t)"

text \<open>\<open>operator!=\<close> compares the current pointers only.\<close>

definition rb_it_neq :: "RBTreeIterator \<Rightarrow> RBTreeIterator \<Rightarrow> bool" where
  "rb_it_neq a b = (rbit_current a \<noteq> rbit_current b)"

text \<open>\<open>for (it = begin(); it != end(); ++it)\<close>, collecting \<open>*it\<close>.\<close>

partial_function (option) rb_iterate ::
  "('k, 'v) RBTree \<Rightarrow> RBTreeIterator \<Rightarrow> RBTreeIterator \<Rightarrow> ('k \<times> 'v) list outcome option" where
  "rb_iterate t e it =
     (if rb_it_neq it e then
        Option.bind (rb_it_incr t it) (\<lambda>r.
          case r of
            Throws x \<Rightarrow> Some (Throws x)
          | Returns it' \<Rightarrow>
              Option.bind (rb_iterate t e it') (\<lambda>rest.
                case rest of
                  Throws x \<Rightarrow> Some (Throws x)
                | Returns xs \<Rightarrow> Some (Returns (rb_it_deref t it # xs))))
      else Some (Returns []))"

declare rb_iterate.simps [code]

definition RBTree_iterate :: "('k, 'v) RBTree \<Rightarrow> ('k \<times> 'v) list outcome option" where
  "RBTree_iterate t =
     Option.bind (RBTree_begin t) (\<lambda>b.
     Option.bind (RBTree_end t) (\<lambda>e. rb_iterate t e b))"

subsection \<open>Sequences of operations\<close>

datatype ('k, 'v) rb_op = RB_Insert 'k 'v | RB_Remove 'k

text \<open>One operation of a caller that catches the exception and carries on.\<close>

definition RBTree_apply ::
  "('k::linorder, 'v) RBTree \<Rightarrow> ('k, 'v) rb_op \<Rightarrow> ('k, 'v) RBTree option" where
  "RBTree_apply t op =
     (case op of
        RB_Insert k v \<Rightarrow> map_option snd (RBTree_insert t k v)
      | RB_Remove k \<Rightarrow> map_option snd (RBTree_remove t k))"

fun RBTree_run_from ::
  "('k::linorder, 'v) RBTree \<Rightarrow> ('k, 'v) rb_op list \<Rightarrow> ('k, 'v) RBTree option" where
  "RBTree_run_from t [] = Some t"
| "RBTree_run_from t (op # ops) = Option.bind (RBTree_apply t op) (\<lambda>t'. RBTree_run_from t' ops)"

definition RBTree_run ::
  "'k \<Rightarrow> 'v \<Rightarrow> ('k::linorder, 'v) rb_op list \<Rightarrow> ('k, 'v) RBTree option" where
  "RBTree_run default_key default_value ops =
     RBTree_run_from (RBTree_new default_key default_value) ops"


subsection \<open>Searching changes the comparison counter only\<close>

lemma count_comparisons_as_update:
  "count_comparisons n (t\<lparr>rb_n_comparisons := m\<rparr>) = t\<lparr>rb_n_comparisons := m + n\<rparr>"
  "count_comparisons n t = t\<lparr>rb_n_comparisons := rb_n_comparisons t + n\<rparr>"
  by (simp_all add: count_comparisons_def)

lemma rb_search_from_counts_aux:
  assumes "rb_search_from t key p = Some r"
  shows "\<exists>m. snd r = t\<lparr>rb_n_comparisons := m\<rparr>"
  using assms
proof (induction rule: rb_search_from.raw_induct[rotated 1, consumes 1, case_names step])
  case (step search t key p r)
  show ?case
  proof (cases "p \<noteq> rb_NIL t \<and> key_of t p \<noteq> key")
    case True
    let ?c = "if key < key_of t p then left_of t p else right_of t p"
    from True step.hyps have s: "search (count_comparisons 3 t) key ?c = Some r" by simp
    obtain m where "snd r = (count_comparisons 3 t)\<lparr>rb_n_comparisons := m\<rparr>"
      using step.IH[OF s] by blast
    then show ?thesis by (auto simp: count_comparisons_def)
  next
    case False
    with step.hyps have "snd r = t" by (auto split: if_splits)
    then have "snd r = t\<lparr>rb_n_comparisons := rb_n_comparisons t\<rparr>" by simp
    then show ?thesis by blast
  qed
qed

lemma rb_search_from_counts:
  assumes "rb_search_from t key p = Some (z, t')"
  shows "\<exists>m. t' = t\<lparr>rb_n_comparisons := m\<rparr>"
  using rb_search_from_counts_aux[OF assms] by simp

text \<open>A search that ends on a node ends on a node with the key, and the descent of \<open>insert\<close>
  from the same pointer throws there, whatever the counter is.\<close>

lemma rb_search_from_found_aux:
  assumes "rb_search_from t key p = Some r"
  shows "fst r \<noteq> rb_NIL t \<longrightarrow> key_of t (fst r) = key \<and>
         (\<forall>n q. \<exists>m. rb_insert_descend (t\<lparr>rb_n_comparisons := n\<rparr>) key p q =
              Some (Throws RB_AlreadyExistsException, t\<lparr>rb_n_comparisons := m\<rparr>))"
  using assms
proof (induction rule: rb_search_from.raw_induct[rotated 1, consumes 1, case_names step])
  case (step search t key p r)
  show ?case
  proof (intro impI)
    assume nz: "fst r \<noteq> rb_NIL t"
    show "key_of t (fst r) = key \<and>
         (\<forall>n q. \<exists>m. rb_insert_descend (t\<lparr>rb_n_comparisons := n\<rparr>) key p q =
              Some (Throws RB_AlreadyExistsException, t\<lparr>rb_n_comparisons := m\<rparr>))"
    proof (cases "p \<noteq> rb_NIL t \<and> key_of t p \<noteq> key")
      case True
      let ?c = "if key < key_of t p then left_of t p else right_of t p"
      let ?t3 = "count_comparisons 3 t"
      from True step.hyps have s: "search ?t3 key ?c = Some r" by simp
      have z: "fst r \<noteq> rb_NIL ?t3" using nz by (simp add: count_comparisons_def)
      have k: "key_of t (fst r) = key"
        using step.IH[OF s] z by (simp add: count_comparisons_def)
      have d: "\<exists>m. rb_insert_descend (t\<lparr>rb_n_comparisons := n'\<rparr>) key ?c q' =
                Some (Throws RB_AlreadyExistsException, t\<lparr>rb_n_comparisons := m\<rparr>)" for n' q'
        using step.IH[OF s] z by (simp add: count_comparisons_def)
      have "\<exists>m. rb_insert_descend (t\<lparr>rb_n_comparisons := n\<rparr>) key p q =
              Some (Throws RB_AlreadyExistsException, t\<lparr>rb_n_comparisons := m\<rparr>)" for n q
      proof (cases "key < key_of t p")
        case l: True
        obtain m where "rb_insert_descend (t\<lparr>rb_n_comparisons := n + 1 + 2\<rparr>) key (left_of t p) p =
                Some (Throws RB_AlreadyExistsException, t\<lparr>rb_n_comparisons := m\<rparr>)"
          using d[of "n + 1 + 2" p] l by auto
        then show ?thesis using True l
          by (subst rb_insert_descend.simps) (auto simp: count_comparisons_def)
      next
        case r: False
        obtain m where "rb_insert_descend (t\<lparr>rb_n_comparisons := n + 2\<rparr>) key (right_of t p) p =
                Some (Throws RB_AlreadyExistsException, t\<lparr>rb_n_comparisons := m\<rparr>)"
          using d[of "n + 2" p] r by auto
        then show ?thesis using True r
          by (subst rb_insert_descend.simps) (auto simp: count_comparisons_def)
      qed
      then show ?thesis using k by blast
    next
      case False
      with step.hyps have zp: "fst r = p" by (auto split: if_splits)
      with False nz have k: "key_of t p = key" by auto
      have "\<exists>m. rb_insert_descend (t\<lparr>rb_n_comparisons := n\<rparr>) key p q =
              Some (Throws RB_AlreadyExistsException, t\<lparr>rb_n_comparisons := m\<rparr>)" for n q
        using zp k nz by (subst rb_insert_descend.simps) auto
      then show ?thesis using zp k by blast
    qed
  qed
qed

lemma rb_search_from_found:
  assumes "rb_search_from t key p = Some (z, t')" "z \<noteq> rb_NIL t"
  shows "key_of t z = key"
    and "\<exists>m. rb_insert_descend (t\<lparr>rb_n_comparisons := n\<rparr>) key p q =
              Some (Throws RB_AlreadyExistsException, t\<lparr>rb_n_comparisons := m\<rparr>)"
  using rb_search_from_found_aux[OF assms(1)] assms(2) by auto

lemma RBTree_insert_present:
  assumes "map_option fst (RBTree_contains t k) = Some True"
  shows "\<exists>m. RBTree_insert t k v = Some (Throws RB_AlreadyExistsException, t\<lparr>rb_n_comparisons := m\<rparr>)"
proof -
  from assms obtain z t' where s: "rb_search_from t k (rb_root t) = Some (z, t')" and z: "z \<noteq> rb_NIL t'"
    by (auto simp: RBTree_contains_def rb_search_def)
  obtain m0 where "t' = t\<lparr>rb_n_comparisons := m0\<rparr>" using rb_search_from_counts[OF s] by blast
  then have z': "z \<noteq> rb_NIL t" using z by simp
  obtain m where "rb_insert_descend (t\<lparr>rb_n_comparisons := rb_n_comparisons t\<rparr>) k (rb_root t) (rb_NIL t) =
              Some (Throws RB_AlreadyExistsException, t\<lparr>rb_n_comparisons := m\<rparr>)"
    using rb_search_from_found(2)[OF s z', of "rb_n_comparisons t" "rb_NIL t"] by blast
  then show ?thesis by (auto simp: RBTree_insert_def)
qed


subsection \<open>Operations that throw\<close>










subsection \<open>The tree a store represents\<close>

text \<open>
  The shape of a red-black tree is a binary tree of addresses.  A store represents the shape
  below a parent when every address of the shape holds a node whose child pointers lead to
  the roots of the two subshapes (the sentinel for an empty one) and whose parent pointer
  leads back.
\<close>

fun raddr :: "nat \<Rightarrow> nat tree \<Rightarrow> nat" where
  "raddr nil Leaf = nil"
| "raddr nil (Node l a r) = a"

fun rb_rep :: "(nat \<Rightarrow> ('k, 'v) RBNode) \<Rightarrow> nat \<Rightarrow> nat \<Rightarrow> nat tree \<Rightarrow> bool" where
  "rb_rep h nil par Leaf = True"
| "rb_rep h nil par (Node l a r) =
     (a \<noteq> nil \<and> rb_parent (h a) = par \<and>
      rb_left (h a) = raddr nil l \<and> rb_right (h a) = raddr nil r \<and>
      rb_rep h nil a l \<and> rb_rep h nil a r)"

definition rb_sentinel_ok :: "('k, 'v) RBTree \<Rightarrow> bool" where
  "rb_sentinel_ok t =
     (color_of t (rb_NIL t) = BLACK \<and> left_of t (rb_NIL t) = rb_NIL t \<and>
      right_of t (rb_NIL t) = rb_NIL t \<and> rb_NIL t < rb_next t)"

definition rb_wf :: "('k, 'v) RBTree \<Rightarrow> nat tree \<Rightarrow> bool" where
  "rb_wf t T =
     (rb_root t = raddr (rb_NIL t) T \<and> rb_rep (rb_store t) (rb_NIL t) (rb_NIL t) T \<and>
      distinct (inorder T) \<and> rb_sentinel_ok t \<and> (\<forall>a \<in> set_tree T. a < rb_next t))"

text \<open>Paths: the frames from a position up to the root, innermost first.\<close>

datatype rb_side = LeftChild | RightChild

type_synonym rb_frame = "rb_side \<times> nat \<times> nat tree"

fun rb_plug :: "rb_frame list \<Rightarrow> nat tree \<Rightarrow> nat tree" where
  "rb_plug [] S = S"
| "rb_plug ((LeftChild, a, s) # ctx) S = rb_plug ctx (Node S a s)"
| "rb_plug ((RightChild, a, s) # ctx) S = rb_plug ctx (Node s a S)"

fun ctx_parent :: "nat \<Rightarrow> rb_frame list \<Rightarrow> nat" where
  "ctx_parent nil [] = nil"
| "ctx_parent nil ((d, a, s) # ctx) = a"

fun ctx_rep :: "(nat \<Rightarrow> ('k, 'v) RBNode) \<Rightarrow> nat \<Rightarrow> nat \<Rightarrow> rb_frame list \<Rightarrow> nat \<Rightarrow> bool" where
  "ctx_rep h nil rt [] c = (rt = c)"
| "ctx_rep h nil rt ((LeftChild, a, s) # ctx) c =
     (a \<noteq> nil \<and> rb_left (h a) = c \<and> rb_right (h a) = raddr nil s \<and> rb_rep h nil a s \<and>
      rb_parent (h a) = ctx_parent nil ctx \<and> ctx_rep h nil rt ctx a)"
| "ctx_rep h nil rt ((RightChild, a, s) # ctx) c =
     (a \<noteq> nil \<and> rb_right (h a) = c \<and> rb_left (h a) = raddr nil s \<and> rb_rep h nil a s \<and>
      rb_parent (h a) = ctx_parent nil ctx \<and> ctx_rep h nil rt ctx a)"

fun ctx_addrs :: "rb_frame list \<Rightarrow> nat list" where
  "ctx_addrs [] = []"
| "ctx_addrs ((d, a, s) # ctx) = a # inorder s @ ctx_addrs ctx"


lemma set_rb_plug: "set_tree (rb_plug ctx S) = set_tree S \<union> set (ctx_addrs ctx)"
proof (induction ctx arbitrary: S)
  case Nil
  then show ?case by simp
next
  case (Cons f ctx)
  obtain d a s where f: "f = (d, a, s)" by (cases f)
  show ?case using Cons.IH f by (cases d) auto
qed


lemma rb_rep_cong:
  assumes "\<forall>a \<in> set_tree S. rb_parent (h' a) = rb_parent (h a) \<and>
             rb_left (h' a) = rb_left (h a) \<and> rb_right (h' a) = rb_right (h a)"
  shows "rb_rep h' nil par S = rb_rep h nil par S"
  using assms by (induction S arbitrary: par) auto

lemma ctx_rep_cong:
  assumes "\<forall>a \<in> set (ctx_addrs ctx). rb_parent (h' a) = rb_parent (h a) \<and>
             rb_left (h' a) = rb_left (h a) \<and> rb_right (h' a) = rb_right (h a)"
  shows "ctx_rep h' nil rt ctx c = ctx_rep h nil rt ctx c"
  using assms
proof (induction ctx arbitrary: c)
  case Nil
  then show ?case by simp
next
  case (Cons f ctx)
  obtain d a s where f: "f = (d, a, s)" by (cases f)
  have s: "rb_rep h' nil a s = rb_rep h nil a s"
    by (rule rb_rep_cong) (use Cons.prems f in auto)
  have c: "ctx_rep h' nil rt ctx a = ctx_rep h nil rt ctx a"
    by (rule Cons.IH) (use Cons.prems f in auto)
  show ?case using s c Cons.prems f by (cases d) auto
qed


subsection \<open>\<open>clear\<close>\<close>

lemma rb_delete_subtree_rep:
  assumes "rb_rep (rb_store t) (rb_NIL t) par S"
  shows "\<exists>rel. rb_delete_subtree t (raddr (rb_NIL t) S) = Some (t\<lparr>rb_released := rel\<rparr>)"
  using assms
proof (induction S arbitrary: t par)
  case Leaf
  have "rb_delete_subtree t (rb_NIL t) = Some (t\<lparr>rb_released := rb_released t\<rparr>)"
    by (subst rb_delete_subtree.simps) simp
  then show ?case unfolding raddr.simps by (rule exI)
next
  case (Node l a r)
  from Node.prems have a: "a \<noteq> rb_NIL t" and la: "left_of t a = raddr (rb_NIL t) l"
    and ra: "right_of t a = raddr (rb_NIL t) r"
    and rl: "rb_rep (rb_store t) (rb_NIL t) a l" and rr: "rb_rep (rb_store t) (rb_NIL t) a r"
    by auto
  obtain r1 where 1: "rb_delete_subtree t (raddr (rb_NIL t) l) = Some (t\<lparr>rb_released := r1\<rparr>)"
    using Node.IH(1)[OF rl] by blast
  let ?t1 = "t\<lparr>rb_released := r1\<rparr>"
  have "rb_rep (rb_store ?t1) (rb_NIL ?t1) a r" using rr by simp
  from Node.IH(2)[OF this]
  obtain r2 where 2: "rb_delete_subtree ?t1 (raddr (rb_NIL t) r) = Some (t\<lparr>rb_released := r2\<rparr>)"
    by auto
  have "rb_delete_subtree t a = Some (t\<lparr>rb_released := a # r2\<rparr>)"
    by (subst rb_delete_subtree.simps) (simp add: a la ra 1 2 delete_RBNode_def)
  then show ?case by auto
qed

lemma RBTree_clear_wf:
  assumes "rb_wf t T"
  shows "\<exists>rel. RBTree_clear t = Some (t\<lparr>rb_released := rel, rb_root := rb_NIL t\<rparr>)"
proof -
  from assms have "rb_rep (rb_store t) (rb_NIL t) (rb_NIL t) T" and "rb_root t = raddr (rb_NIL t) T"
    by (auto simp: rb_wf_def)
  then show ?thesis using rb_delete_subtree_rep[of t "rb_NIL t" T]
    by (auto simp: RBTree_clear_def)
qed

lemma RBTree_contains_empty:
  assumes "rb_root t = rb_NIL t"
  shows "RBTree_contains t k = Some (False, t)"
  using assms by (simp add: RBTree_contains_def rb_search_def rb_search_from.simps)

lemma RBTree_iterate_empty:
  assumes "rb_root t = rb_NIL t"
  shows "RBTree_iterate t = Some (Returns [])"
  using assms
  by (simp add: RBTree_iterate_def RBTree_begin_def RBTree_end_def RBTreeIterator_new_def
      rb_iterate.simps rb_it_neq_def)


lemma set_key_fields [simp]:
  "rb_next (set_key t a x) = rb_next t \<and>
   rb_released (set_key t a x) = rb_released t \<and>
   rb_root (set_key t a x) = rb_root t \<and>
   rb_NIL (set_key t a x) = rb_NIL t \<and>
   m_size (set_key t a x) = m_size t \<and>
   rb_n_comparisons (set_key t a x) = rb_n_comparisons t \<and>
   rb_n_rotations (set_key t a x) = rb_n_rotations t"
  by (simp add: set_key_def)

lemma set_key_store:
  "rb_store (set_key t a x) = (rb_store t)(a := (rb_store t a)\<lparr>rb_key := x\<rparr>)"
  by (simp add: set_key_def)

lemma set_key_other [simp]:
  "rb_val (rb_store (set_key t a x) b) = rb_val (rb_store t b) \<and>
   rb_parent (rb_store (set_key t a x) b) = rb_parent (rb_store t b) \<and>
   rb_left (rb_store (set_key t a x) b) = rb_left (rb_store t b) \<and>
   rb_right (rb_store (set_key t a x) b) = rb_right (rb_store t b) \<and>
   rb_color (rb_store (set_key t a x) b) = rb_color (rb_store t b)"
  by (simp add: set_key_def)

lemma set_key_same [simp]:
  "rb_key (rb_store (set_key t a x) b) = (if b = a then x else rb_key (rb_store t b))"
  by (simp add: set_key_def)

lemma set_val_fields [simp]:
  "rb_next (set_val t a x) = rb_next t \<and>
   rb_released (set_val t a x) = rb_released t \<and>
   rb_root (set_val t a x) = rb_root t \<and>
   rb_NIL (set_val t a x) = rb_NIL t \<and>
   m_size (set_val t a x) = m_size t \<and>
   rb_n_comparisons (set_val t a x) = rb_n_comparisons t \<and>
   rb_n_rotations (set_val t a x) = rb_n_rotations t"
  by (simp add: set_val_def)

lemma set_val_store:
  "rb_store (set_val t a x) = (rb_store t)(a := (rb_store t a)\<lparr>rb_val := x\<rparr>)"
  by (simp add: set_val_def)

lemma set_val_other [simp]:
  "rb_key (rb_store (set_val t a x) b) = rb_key (rb_store t b) \<and>
   rb_parent (rb_store (set_val t a x) b) = rb_parent (rb_store t b) \<and>
   rb_left (rb_store (set_val t a x) b) = rb_left (rb_store t b) \<and>
   rb_right (rb_store (set_val t a x) b) = rb_right (rb_store t b) \<and>
   rb_color (rb_store (set_val t a x) b) = rb_color (rb_store t b)"
  by (simp add: set_val_def)

lemma set_val_same [simp]:
  "rb_val (rb_store (set_val t a x) b) = (if b = a then x else rb_val (rb_store t b))"
  by (simp add: set_val_def)

lemma set_parent_fields [simp]:
  "rb_next (set_parent t a x) = rb_next t \<and>
   rb_released (set_parent t a x) = rb_released t \<and>
   rb_root (set_parent t a x) = rb_root t \<and>
   rb_NIL (set_parent t a x) = rb_NIL t \<and>
   m_size (set_parent t a x) = m_size t \<and>
   rb_n_comparisons (set_parent t a x) = rb_n_comparisons t \<and>
   rb_n_rotations (set_parent t a x) = rb_n_rotations t"
  by (simp add: set_parent_def)

lemma set_parent_store:
  "rb_store (set_parent t a x) = (rb_store t)(a := (rb_store t a)\<lparr>rb_parent := x\<rparr>)"
  by (simp add: set_parent_def)

lemma set_parent_other [simp]:
  "rb_key (rb_store (set_parent t a x) b) = rb_key (rb_store t b) \<and>
   rb_val (rb_store (set_parent t a x) b) = rb_val (rb_store t b) \<and>
   rb_left (rb_store (set_parent t a x) b) = rb_left (rb_store t b) \<and>
   rb_right (rb_store (set_parent t a x) b) = rb_right (rb_store t b) \<and>
   rb_color (rb_store (set_parent t a x) b) = rb_color (rb_store t b)"
  by (simp add: set_parent_def)

lemma set_parent_same [simp]:
  "rb_parent (rb_store (set_parent t a x) b) = (if b = a then x else rb_parent (rb_store t b))"
  by (simp add: set_parent_def)

lemma set_left_fields [simp]:
  "rb_next (set_left t a x) = rb_next t \<and>
   rb_released (set_left t a x) = rb_released t \<and>
   rb_root (set_left t a x) = rb_root t \<and>
   rb_NIL (set_left t a x) = rb_NIL t \<and>
   m_size (set_left t a x) = m_size t \<and>
   rb_n_comparisons (set_left t a x) = rb_n_comparisons t \<and>
   rb_n_rotations (set_left t a x) = rb_n_rotations t"
  by (simp add: set_left_def)

lemma set_left_store:
  "rb_store (set_left t a x) = (rb_store t)(a := (rb_store t a)\<lparr>rb_left := x\<rparr>)"
  by (simp add: set_left_def)

lemma set_left_other [simp]:
  "rb_key (rb_store (set_left t a x) b) = rb_key (rb_store t b) \<and>
   rb_val (rb_store (set_left t a x) b) = rb_val (rb_store t b) \<and>
   rb_parent (rb_store (set_left t a x) b) = rb_parent (rb_store t b) \<and>
   rb_right (rb_store (set_left t a x) b) = rb_right (rb_store t b) \<and>
   rb_color (rb_store (set_left t a x) b) = rb_color (rb_store t b)"
  by (simp add: set_left_def)

lemma set_left_same [simp]:
  "rb_left (rb_store (set_left t a x) b) = (if b = a then x else rb_left (rb_store t b))"
  by (simp add: set_left_def)

lemma set_right_fields [simp]:
  "rb_next (set_right t a x) = rb_next t \<and>
   rb_released (set_right t a x) = rb_released t \<and>
   rb_root (set_right t a x) = rb_root t \<and>
   rb_NIL (set_right t a x) = rb_NIL t \<and>
   m_size (set_right t a x) = m_size t \<and>
   rb_n_comparisons (set_right t a x) = rb_n_comparisons t \<and>
   rb_n_rotations (set_right t a x) = rb_n_rotations t"
  by (simp add: set_right_def)

lemma set_right_store:
  "rb_store (set_right t a x) = (rb_store t)(a := (rb_store t a)\<lparr>rb_right := x\<rparr>)"
  by (simp add: set_right_def)

lemma set_right_other [simp]:
  "rb_key (rb_store (set_right t a x) b) = rb_key (rb_store t b) \<and>
   rb_val (rb_store (set_right t a x) b) = rb_val (rb_store t b) \<and>
   rb_parent (rb_store (set_right t a x) b) = rb_parent (rb_store t b) \<and>
   rb_left (rb_store (set_right t a x) b) = rb_left (rb_store t b) \<and>
   rb_color (rb_store (set_right t a x) b) = rb_color (rb_store t b)"
  by (simp add: set_right_def)

lemma set_right_same [simp]:
  "rb_right (rb_store (set_right t a x) b) = (if b = a then x else rb_right (rb_store t b))"
  by (simp add: set_right_def)

lemma set_color_fields [simp]:
  "rb_next (set_color t a x) = rb_next t \<and>
   rb_released (set_color t a x) = rb_released t \<and>
   rb_root (set_color t a x) = rb_root t \<and>
   rb_NIL (set_color t a x) = rb_NIL t \<and>
   m_size (set_color t a x) = m_size t \<and>
   rb_n_comparisons (set_color t a x) = rb_n_comparisons t \<and>
   rb_n_rotations (set_color t a x) = rb_n_rotations t"
  by (simp add: set_color_def)

lemma set_color_store:
  "rb_store (set_color t a x) = (rb_store t)(a := (rb_store t a)\<lparr>rb_color := x\<rparr>)"
  by (simp add: set_color_def)

lemma set_color_other [simp]:
  "rb_key (rb_store (set_color t a x) b) = rb_key (rb_store t b) \<and>
   rb_val (rb_store (set_color t a x) b) = rb_val (rb_store t b) \<and>
   rb_parent (rb_store (set_color t a x) b) = rb_parent (rb_store t b) \<and>
   rb_left (rb_store (set_color t a x) b) = rb_left (rb_store t b) \<and>
   rb_right (rb_store (set_color t a x) b) = rb_right (rb_store t b)"
  by (simp add: set_color_def)

lemma set_color_same [simp]:
  "rb_color (rb_store (set_color t a x) b) = (if b = a then x else rb_color (rb_store t b))"
  by (simp add: set_color_def)

lemma count_comparisons_fields [simp]:
  "rb_store (count_comparisons n t) = rb_store t \<and> rb_next (count_comparisons n t) = rb_next t \<and>
   rb_released (count_comparisons n t) = rb_released t \<and> rb_root (count_comparisons n t) = rb_root t \<and>
   rb_NIL (count_comparisons n t) = rb_NIL t \<and> m_size (count_comparisons n t) = m_size t \<and>
   rb_n_rotations (count_comparisons n t) = rb_n_rotations t"
  by (simp add: count_comparisons_def)

lemma count_rotation_fields [simp]:
  "rb_store (count_rotation t) = rb_store t \<and> rb_next (count_rotation t) = rb_next t \<and>
   rb_released (count_rotation t) = rb_released t \<and> rb_root (count_rotation t) = rb_root t \<and>
   rb_NIL (count_rotation t) = rb_NIL t \<and> m_size (count_rotation t) = m_size t \<and>
   rb_n_comparisons (count_rotation t) = rb_n_comparisons t"
  by (simp add: count_rotation_def)

lemma delete_RBNode_fields [simp]:
  "rb_store (delete_RBNode t a) = rb_store t \<and> rb_next (delete_RBNode t a) = rb_next t \<and>
   rb_root (delete_RBNode t a) = rb_root t \<and>
   rb_NIL (delete_RBNode t a) = rb_NIL t \<and> m_size (delete_RBNode t a) = m_size t \<and>
   rb_n_comparisons (delete_RBNode t a) = rb_n_comparisons t \<and>
   rb_n_rotations (delete_RBNode t a) = rb_n_rotations t"
  by (simp add: delete_RBNode_def)

lemma rb_root_update_fields [simp]:
  "rb_store (t\<lparr>rb_root := r\<rparr>) = rb_store t"
  by simp

definition ptrs_eq :: "('k, 'v) RBNode \<Rightarrow> ('k, 'v) RBNode \<Rightarrow> bool" where
  "ptrs_eq n n' = (rb_parent n' = rb_parent n \<and> rb_left n' = rb_left n \<and> rb_right n' = rb_right n)"

lemma rb_rep_same:
  assumes "rb_rep h nil par S" "\<And>a. a \<in> set_tree S \<Longrightarrow> ptrs_eq (h a) (h' a)"
  shows "rb_rep h' nil par S"
  using rb_rep_cong[of S h' h nil par] assms by (simp add: ptrs_eq_def)

lemma ctx_rep_same:
  assumes "ctx_rep h nil rt ctx c" "\<And>a. a \<in> set (ctx_addrs ctx) \<Longrightarrow> ptrs_eq (h a) (h' a)"
  shows "ctx_rep h' nil rt ctx c"
  using ctx_rep_cong[of ctx h' h nil rt c] assms by (simp add: ptrs_eq_def)

lemma raddr_cases: "raddr nil S = nil \<or> raddr nil S \<in> set_tree S"
  by (cases S) auto

lemma ctx_parent_cases: "ctx_parent nil ctx = nil \<or> ctx_parent nil ctx \<in> set (ctx_addrs ctx)"
  by (cases ctx) auto

lemma rb_rep_not_nil: "rb_rep h nil par S \<Longrightarrow> nil \<notin> set_tree S"
  by (induction S arbitrary: par) auto

lemma ctx_rep_not_nil: "ctx_rep h nil rt ctx c \<Longrightarrow> nil \<notin> set (ctx_addrs ctx)"
proof (induction ctx arbitrary: c)
  case Nil
  then show ?case by simp
next
  case (Cons f ctx)
  obtain d a s where f: "f = (d, a, s)" by (cases f)
  show ?case using Cons f rb_rep_not_nil[of h nil a s] by (cases d) auto
qed

text \<open>Hanging a represented subtree below another parent.\<close>

lemma rb_rep_reparent:
  assumes "rb_rep h nil par S" "distinct (inorder S)"
    and "\<And>a. a \<in> set_tree S \<Longrightarrow> a \<noteq> raddr nil S \<Longrightarrow> ptrs_eq (h a) (h' a)"
    and "S \<noteq> Leaf \<Longrightarrow> rb_parent (h' (raddr nil S)) = par' \<and>
           rb_left (h' (raddr nil S)) = rb_left (h (raddr nil S)) \<and>
           rb_right (h' (raddr nil S)) = rb_right (h (raddr nil S))"
  shows "rb_rep h' nil par' S"
proof (cases S)
  case Leaf
  then show ?thesis by simp
next
  case (Node l a r)
  have l: "rb_rep h' nil a l"
    by (rule rb_rep_same[of h]) (use assms(1,2,3) Node in auto)
  have r: "rb_rep h' nil a r"
    by (rule rb_rep_same[of h]) (use assms(1,2,3) Node in auto)
  show ?thesis using assms(1,4) Node l r by simp
qed

text \<open>Replacing the child of the innermost frame (or the root).\<close>

lemma ctx_rep_rechild:
  assumes "ctx_rep h nil rt ctx c" "distinct (ctx_addrs ctx)"
    and "\<And>a. a \<in> set (ctx_addrs ctx) \<Longrightarrow> a \<noteq> ctx_parent nil ctx \<Longrightarrow> ptrs_eq (h a) (h' a)"
    and "ctx = [] \<Longrightarrow> rt' = c'"
    and "\<And>a s rest. ctx = (LeftChild, a, s) # rest \<Longrightarrow>
           rt' = rt \<and> rb_left (h' a) = c' \<and> rb_right (h' a) = rb_right (h a) \<and>
           rb_parent (h' a) = rb_parent (h a)"
    and "\<And>a s rest. ctx = (RightChild, a, s) # rest \<Longrightarrow>
           rt' = rt \<and> rb_right (h' a) = c' \<and> rb_left (h' a) = rb_left (h a) \<and>
           rb_parent (h' a) = rb_parent (h a)"
  shows "ctx_rep h' nil rt' ctx c'"
proof (cases ctx)
  case Nil
  then show ?thesis using assms(4) by simp
next
  case (Cons f rest)
  obtain d a s where f: "f = (d, a, s)" by (cases f)
  have s: "rb_rep h' nil a s"
    by (rule rb_rep_same[of h]) (use assms(1,2,3) Cons f in \<open>cases d; auto\<close>)+
  have r: "ctx_rep h' nil rt rest a"
    by (rule ctx_rep_same[of h]) (use assms(1,2,3) Cons f in \<open>cases d; auto\<close>)+
  show ?thesis
  proof (cases d)
    case LeftChild
    then show ?thesis using assms(1) assms(5)[of a s rest] Cons f s r by simp
  next
    case RightChild
    then show ?thesis using assms(1) assms(6)[of a s rest] Cons f s r by simp
  qed
qed


subsection \<open>Positions in a tree\<close>







subsection \<open>The iterator on a well-formed tree\<close>

definition rb_first :: "nat \<Rightarrow> nat list \<Rightarrow> nat" where
  "rb_first nil as = (case as of [] \<Rightarrow> nil | a # _ \<Rightarrow> a)"

lemma rb_first_simps [simp]:
  "rb_first nil [] = nil" "rb_first nil (a # as) = a"
  "rb_first nil (as @ a # bs) = (case as of [] \<Rightarrow> a | x # _ \<Rightarrow> x)"
  by (cases as; simp add: rb_first_def)+









subsection \<open>Searching a search tree\<close>






section \<open>Claims about the red-black tree\<close>

text \<open>A tree of three keys, built without any rotation.\<close>

definition rb_sample :: "(nat, nat) RBTree" where
  "rb_sample = the (RBTree_run 0 0 [RB_Insert 2 20, RB_Insert 1 10, RB_Insert 3 30])"



text \<open>
  Claim C5, on the code: \<open>RBTree::remove\<close> has no \<open>throw\<close>.  The tree that holds the keys 1, 2
  and 3 does not contain 7, and \<open>remove(7)\<close> returns normally, leaving the three pairs and
  the size as they were, although the comment above \<open>remove\<close> announces an exception for a
  key that is not in the tree.
\<close>

theorem rb_remove_absent_key_returns:
  "map_option RBTree_size
     (RBTree_run (0::nat) (0::nat) [RB_Insert 2 20, RB_Insert 1 10, RB_Insert 3 30]) = Some 3 \<and>
   map_option fst (RBTree_contains rb_sample 7) = Some False \<and>
   map_option fst (RBTree_remove rb_sample 7) = Some (Returns ()) \<and>
   map_option (RBTree_size \<circ> snd) (RBTree_remove rb_sample 7) = Some 3"
  by (intro conjI; code_simp)

text \<open>
  Claim C6.  Inserting a key that is already present changes nothing in the container.  In
  an AVL tree reached by any sequence of operations, \<open>insert\<close> of a key that \<open>contains\<close>
  reports leaves \<open>size()\<close> as it was and \<open>at\<close> returns the same, stored, value as before; the
  new value is dropped.  In a red-black tree, \<open>insert\<close> of a key that \<open>contains\<close> reports throws
  \<open>RB_AlreadyExistsException\<close> and leaves the tree as it was but for the comparison counter.
\<close>

theorem insert_present_key_keeps_contents:
  fixes ops :: "('k::linorder, 'v) avl_op list" and t :: "('j::linorder, 'w) RBTree"
  shows "(fst (AVLTree_contains (AVLTree_run ops) k) \<longrightarrow>
            AVLTree_size (AVLTree_insert (AVLTree_run ops) k v) = AVLTree_size (AVLTree_run ops) \<and>
            (\<exists>x. fst (AVLTree_at (AVLTree_run ops) k) = Returns x \<and>
                 fst (AVLTree_at (AVLTree_insert (AVLTree_run ops) k v) k) = Returns x)) \<and>
         (map_option fst (RBTree_contains t j) = Some True \<longrightarrow>
            (\<exists>m. RBTree_insert t j w =
                   Some (Throws RB_AlreadyExistsException, t\<lparr>rb_n_comparisons := m\<rparr>)))"
proof (intro conjI impI)
  assume c: "fst (AVLTree_contains (AVLTree_run ops) k)"
  note p = AVLTree_insert_present[OF c, of v]
  show "AVLTree_size (AVLTree_insert (AVLTree_run ops) k v) = AVLTree_size (AVLTree_run ops)"
    using p by simp
  have "fst (AVLTree_at (AVLTree_run ops) k) =
        Returns (avl_val (fst (avl_findNode (AVLTree_run ops) (avl_root (AVLTree_run ops)) k)))"
    using c by (simp add: AVLTree_at_fst AVLTree_contains_fst)
  then show "\<exists>x. fst (AVLTree_at (AVLTree_run ops) k) = Returns x \<and>
                 fst (AVLTree_at (AVLTree_insert (AVLTree_run ops) k v) k) = Returns x"
    using p by simp
next
  assume "map_option fst (RBTree_contains t j) = Some True"
  then show "\<exists>m. RBTree_insert t j w =
                   Some (Throws RB_AlreadyExistsException, t\<lparr>rb_n_comparisons := m\<rparr>)"
    by (rule RBTree_insert_present)
qed

text \<open>C6 where the key 2 is inserted a second time, in an AVL tree and in a red-black tree
  that hold the keys 1, 2 and 3.\<close>

theorem insert_present_key_keeps_contents_witness:
  "fst (AVLTree_contains (AVLTree_run [AVL_Insert (2::nat) (20::nat), AVL_Insert 1 10, AVL_Insert 3 30]) 2) \<and>
   AVLTree_size (AVLTree_insert
      (AVLTree_run [AVL_Insert (2::nat) (20::nat), AVL_Insert 1 10, AVL_Insert 3 30]) 2 99) = 3 \<and>
   fst (AVLTree_at (AVLTree_insert
      (AVLTree_run [AVL_Insert (2::nat) (20::nat), AVL_Insert 1 10, AVL_Insert 3 30]) 2 99) 2) = Returns 20 \<and>
   map_option fst (RBTree_contains rb_sample 2) = Some True \<and>
   (\<exists>m. RBTree_insert rb_sample 2 99 =
          Some (Throws RB_AlreadyExistsException, rb_sample\<lparr>rb_n_comparisons := m\<rparr>))"
proof -
  let ?a = "AVLTree_run [AVL_Insert (2::nat) (20::nat), AVL_Insert 1 10, AVL_Insert 3 30]"
  have c: "fst (AVLTree_contains ?a 2)" by code_simp
  have s: "AVLTree_size ?a = 3" by code_simp
  have a: "fst (AVLTree_at ?a 2) = Returns 20" by code_simp
  have r: "map_option fst (RBTree_contains rb_sample 2) = Some True" by code_simp
  show ?thesis
    using insert_present_key_keeps_contents[of "[AVL_Insert (2::nat) (20::nat), AVL_Insert 1 10, AVL_Insert 3 30]" 2 99 rb_sample 2 99] c s a r by auto
qed

text \<open>
  Claim C10.  \<open>clear\<close> releases the nodes and sets the root to the sentinel, and does not touch
  \<open>m_size\<close>.  On every well-formed red-black tree \<open>clear\<close> returns; in the tree it leaves,
  \<open>contains\<close> is false for every key and the iteration from \<open>begin()\<close> to \<open>end()\<close> is empty,
  while \<open>size()\<close> returns what it returned before \<open>clear\<close>.
\<close>

theorem rb_clear_keeps_size:
  fixes t :: "('k::linorder, 'v) RBTree"
  assumes "rb_wf t T" and "RBTree_size t = n"
  shows "\<exists>t'. RBTree_clear t = Some t' \<and>
              (\<forall>k. map_option fst (RBTree_contains t' k) = Some False) \<and>
              RBTree_iterate t' = Some (Returns []) \<and>
              RBTree_size t' = n"
proof -
  obtain rel where c: "RBTree_clear t = Some (t\<lparr>rb_released := rel, rb_root := rb_NIL t\<rparr>)"
    using RBTree_clear_wf[OF assms(1)] by blast
  let ?t' = "t\<lparr>rb_released := rel, rb_root := rb_NIL t\<rparr>"
  have e: "rb_root ?t' = rb_NIL ?t'" by simp
  have "map_option fst (RBTree_contains ?t' k) = Some False" for k
    by (simp add: RBTree_contains_empty[OF e])
  moreover have "RBTree_iterate ?t' = Some (Returns [])"
    by (rule RBTree_iterate_empty[OF e])
  moreover have "RBTree_size ?t' = n" using assms(2) by (simp add: RBTree_size_def)
  ultimately show ?thesis using c by blast
qed

text \<open>C10 on the tree of the keys 1, 2 and 3, whose nodes are at the addresses 2, 1 and 3:
  after \<open>clear\<close> the tree is empty and \<open>size()\<close> is 3.\<close>

theorem rb_clear_keeps_size_witness:
  "rb_wf rb_sample (Node (Node Leaf 2 Leaf) 1 (Node Leaf 3 Leaf)) \<and>
   RBTree_size rb_sample = 3 \<and>
   (\<exists>t'. RBTree_clear rb_sample = Some t' \<and>
         (\<forall>k. map_option fst (RBTree_contains t' k) = Some False) \<and>
         RBTree_iterate t' = Some (Returns []) \<and>
         RBTree_size t' = 3)"
proof -
  have w: "rb_wf rb_sample (Node (Node Leaf 2 Leaf) 1 (Node Leaf 3 Leaf))" by code_simp
  have s: "RBTree_size rb_sample = 3" by code_simp
  show ?thesis using rb_clear_keeps_size[OF w s] w s by simp
qed



end
